theory Spec2Isabelle
  imports Main
begin

section \<open>Strings\<close>

text \<open>
  A JavaScript string is a sequence of UTF-16 code units; a code unit is modelled by its
  number. \<open>js\<close> turns an ASCII literal into such a sequence.
\<close>

type_synonym jsstring = "nat list"

definition js :: "string \<Rightarrow> jsstring" where
  "js s = map of_char s"

definition is_AZ :: "nat \<Rightarrow> bool" where
  "is_AZ c = (65 \<le> c \<and> c \<le> 90)"

definition is_digit :: "nat \<Rightarrow> bool" where
  "is_digit c = (48 \<le> c \<and> c \<le> 57)"

definition is_alnum :: "nat \<Rightarrow> bool" where
  "is_alnum c = (is_AZ c \<or> is_digit c)"

text \<open>
  \<open>String.prototype.toUpperCase\<close> replaces each code point of the string by its upper-case
  form: the unconditional entry of Unicode's special casing where there is one, and the
  simple upper-case mapping otherwise. The mapping is that of Unicode 14.0. It is written
  as the ASCII letters, a list of the code points with an upper-case form of several code
  points, and a list of ranges \<open>(lo, hi, step, lo')\<close>, each standing for the code points
  \<open>lo\<close>, \<open>lo + step\<close>, ... up to \<open>hi\<close>, of which \<open>c\<close> maps to \<open>lo' + (c - lo)\<close>.
\<close>

definition upper_special :: "(nat \<times> nat list) list" where
  "upper_special =
    [
     (223, [83, 83]), (329, [700, 78]), (496, [74, 780]), (912, [921, 776, 769]),
     (944, [933, 776, 769]), (1415, [1333, 1362]), (7830, [72, 817]), (7831, [84, 776]),
     (7832, [87, 778]), (7833, [89, 778]), (7834, [65, 702]), (8016, [933, 787]),
     (8018, [933, 787, 768]), (8020, [933, 787, 769]), (8022, [933, 787, 834]), (8064, [7944, 921]),
     (8065, [7945, 921]), (8066, [7946, 921]), (8067, [7947, 921]), (8068, [7948, 921]),
     (8069, [7949, 921]), (8070, [7950, 921]), (8071, [7951, 921]), (8072, [7944, 921]),
     (8073, [7945, 921]), (8074, [7946, 921]), (8075, [7947, 921]), (8076, [7948, 921]),
     (8077, [7949, 921]), (8078, [7950, 921]), (8079, [7951, 921]), (8080, [7976, 921]),
     (8081, [7977, 921]), (8082, [7978, 921]), (8083, [7979, 921]), (8084, [7980, 921]),
     (8085, [7981, 921]), (8086, [7982, 921]), (8087, [7983, 921]), (8088, [7976, 921]),
     (8089, [7977, 921]), (8090, [7978, 921]), (8091, [7979, 921]), (8092, [7980, 921]),
     (8093, [7981, 921]), (8094, [7982, 921]), (8095, [7983, 921]), (8096, [8040, 921]),
     (8097, [8041, 921]), (8098, [8042, 921]), (8099, [8043, 921]), (8100, [8044, 921]),
     (8101, [8045, 921]), (8102, [8046, 921]), (8103, [8047, 921]), (8104, [8040, 921]),
     (8105, [8041, 921]), (8106, [8042, 921]), (8107, [8043, 921]), (8108, [8044, 921]),
     (8109, [8045, 921]), (8110, [8046, 921]), (8111, [8047, 921]), (8114, [8122, 921]),
     (8115, [913, 921]), (8116, [902, 921]), (8118, [913, 834]), (8119, [913, 834, 921]),
     (8124, [913, 921]), (8130, [8138, 921]), (8131, [919, 921]), (8132, [905, 921]),
     (8134, [919, 834]), (8135, [919, 834, 921]), (8140, [919, 921]), (8146, [921, 776, 768]),
     (8147, [921, 776, 769]), (8150, [921, 834]), (8151, [921, 776, 834]), (8162, [933, 776, 768]),
     (8163, [933, 776, 769]), (8164, [929, 787]), (8166, [933, 834]), (8167, [933, 776, 834]),
     (8178, [8186, 921]), (8179, [937, 921]), (8180, [911, 921]), (8182, [937, 834]),
     (8183, [937, 834, 921]), (8188, [937, 921]), (64256, [70, 70]), (64257, [70, 73]),
     (64258, [70, 76]), (64259, [70, 70, 73]), (64260, [70, 70, 76]), (64261, [83, 84]),
     (64262, [83, 84]), (64275, [1348, 1350]), (64276, [1348, 1333]), (64277, [1348, 1339]),
     (64278, [1358, 1350]), (64279, [1348, 1341])]"

definition upper_ranges :: "(nat \<times> nat \<times> nat \<times> nat) list" where
  "upper_ranges =
    [
     (181, 181, 1, 924), (224, 246, 1, 192), (248, 254, 1, 216), (255, 255, 1, 376),
     (257, 303, 2, 256), (305, 305, 1, 73), (307, 311, 2, 306), (314, 328, 2, 313),
     (331, 375, 2, 330), (378, 382, 2, 377), (383, 383, 1, 83), (384, 384, 1, 579),
     (387, 389, 2, 386), (392, 392, 1, 391), (396, 396, 1, 395), (402, 402, 1, 401),
     (405, 405, 1, 502), (409, 409, 1, 408), (410, 410, 1, 573), (414, 414, 1, 544),
     (417, 421, 2, 416), (424, 424, 1, 423), (429, 429, 1, 428), (432, 432, 1, 431),
     (436, 438, 2, 435), (441, 441, 1, 440), (445, 445, 1, 444), (447, 447, 1, 503),
     (453, 453, 1, 452), (454, 454, 1, 452), (456, 456, 1, 455), (457, 457, 1, 455),
     (459, 459, 1, 458), (460, 460, 1, 458), (462, 476, 2, 461), (477, 477, 1, 398),
     (479, 495, 2, 478), (498, 498, 1, 497), (499, 499, 1, 497), (501, 501, 1, 500),
     (505, 543, 2, 504), (547, 563, 2, 546), (572, 572, 1, 571), (575, 576, 1, 11390),
     (578, 578, 1, 577), (583, 591, 2, 582), (592, 592, 1, 11375), (593, 593, 1, 11373),
     (594, 594, 1, 11376), (595, 595, 1, 385), (596, 596, 1, 390), (598, 599, 1, 393),
     (601, 601, 1, 399), (603, 603, 1, 400), (604, 604, 1, 42923), (608, 608, 1, 403),
     (609, 609, 1, 42924), (611, 611, 1, 404), (613, 613, 1, 42893), (614, 614, 1, 42922),
     (616, 616, 1, 407), (617, 617, 1, 406), (618, 618, 1, 42926), (619, 619, 1, 11362),
     (620, 620, 1, 42925), (623, 623, 1, 412), (625, 625, 1, 11374), (626, 626, 1, 413),
     (629, 629, 1, 415), (637, 637, 1, 11364), (640, 640, 1, 422), (642, 642, 1, 42949),
     (643, 643, 1, 425), (647, 647, 1, 42929), (648, 648, 1, 430), (649, 649, 1, 580),
     (650, 651, 1, 433), (652, 652, 1, 581), (658, 658, 1, 439), (669, 669, 1, 42930),
     (670, 670, 1, 42928), (837, 837, 1, 921), (881, 883, 2, 880), (887, 887, 1, 886),
     (891, 893, 1, 1021), (940, 940, 1, 902), (941, 943, 1, 904), (945, 961, 1, 913),
     (962, 962, 1, 931), (963, 971, 1, 931), (972, 972, 1, 908), (973, 974, 1, 910),
     (976, 976, 1, 914), (977, 977, 1, 920), (981, 981, 1, 934), (982, 982, 1, 928),
     (983, 983, 1, 975), (985, 1007, 2, 984), (1008, 1008, 1, 922), (1009, 1009, 1, 929),
     (1010, 1010, 1, 1017), (1011, 1011, 1, 895), (1013, 1013, 1, 917), (1016, 1016, 1, 1015),
     (1019, 1019, 1, 1018), (1072, 1103, 1, 1040), (1104, 1119, 1, 1024), (1121, 1153, 2, 1120),
     (1163, 1215, 2, 1162), (1218, 1230, 2, 1217), (1231, 1231, 1, 1216), (1233, 1327, 2, 1232),
     (1377, 1414, 1, 1329), (4304, 4346, 1, 7312), (4349, 4351, 1, 7357), (5112, 5117, 1, 5104),
     (7296, 7296, 1, 1042), (7297, 7297, 1, 1044), (7298, 7298, 1, 1054), (7299, 7300, 1, 1057),
     (7301, 7301, 1, 1058), (7302, 7302, 1, 1066), (7303, 7303, 1, 1122), (7304, 7304, 1, 42570),
     (7545, 7545, 1, 42877), (7549, 7549, 1, 11363), (7566, 7566, 1, 42950), (7681, 7829, 2, 7680),
     (7835, 7835, 1, 7776), (7841, 7935, 2, 7840), (7936, 7943, 1, 7944), (7952, 7957, 1, 7960),
     (7968, 7975, 1, 7976), (7984, 7991, 1, 7992), (8000, 8005, 1, 8008), (8017, 8023, 2, 8025),
     (8032, 8039, 1, 8040), (8048, 8049, 1, 8122), (8050, 8053, 1, 8136), (8054, 8055, 1, 8154),
     (8056, 8057, 1, 8184), (8058, 8059, 1, 8170), (8060, 8061, 1, 8186), (8112, 8113, 1, 8120),
     (8126, 8126, 1, 921), (8144, 8145, 1, 8152), (8160, 8161, 1, 8168), (8165, 8165, 1, 8172),
     (8526, 8526, 1, 8498), (8560, 8575, 1, 8544), (8580, 8580, 1, 8579), (9424, 9449, 1, 9398),
     (11312, 11359, 1, 11264), (11361, 11361, 1, 11360), (11365, 11365, 1, 570), (11366, 11366, 1, 574),
     (11368, 11372, 2, 11367), (11379, 11379, 1, 11378), (11382, 11382, 1, 11381), (11393, 11491, 2, 11392),
     (11500, 11502, 2, 11499), (11507, 11507, 1, 11506), (11520, 11557, 1, 4256), (11559, 11559, 1, 4295),
     (11565, 11565, 1, 4301), (42561, 42605, 2, 42560), (42625, 42651, 2, 42624), (42787, 42799, 2, 42786),
     (42803, 42863, 2, 42802), (42874, 42876, 2, 42873), (42879, 42887, 2, 42878), (42892, 42892, 1, 42891),
     (42897, 42899, 2, 42896), (42900, 42900, 1, 42948), (42903, 42921, 2, 42902), (42933, 42947, 2, 42932),
     (42952, 42954, 2, 42951), (42961, 42961, 1, 42960), (42967, 42969, 2, 42966), (42998, 42998, 1, 42997),
     (43859, 43859, 1, 42931), (43888, 43967, 1, 5024), (65345, 65370, 1, 65313), (66600, 66639, 1, 66560),
     (66776, 66811, 1, 66736), (66967, 66977, 1, 66928), (66979, 66993, 1, 66940), (66995, 67001, 1, 66956),
     (67003, 67004, 1, 66964), (68800, 68850, 1, 68736), (71872, 71903, 1, 71840), (93792, 93823, 1, 93760),
     (125218, 125251, 1, 125184)]"

definition in_range :: "nat \<Rightarrow> nat \<times> nat \<times> nat \<times> nat \<Rightarrow> bool" where
  "in_range c e = (case e of (lo, hi, step, lo') \<Rightarrow> lo \<le> c \<and> c \<le> hi \<and> (c - lo) mod step = 0)"

definition upper_point :: "nat \<Rightarrow> nat list" where
  "upper_point c =
    (if 97 \<le> c \<and> c \<le> 122 then [c - 32]
     else (case map_of upper_special c of
             Some u \<Rightarrow> u
           | None \<Rightarrow>
               (case find (in_range c) upper_ranges of
                  Some (lo, hi, step, lo') \<Rightarrow> [lo' + (c - lo)]
                | None \<Rightarrow> [c])))"

text \<open>
  A code point above \<open>0xFFFF\<close> is a high surrogate followed by a low surrogate; a
  surrogate that has no partner is a code point of its own.
\<close>

definition is_high :: "nat \<Rightarrow> bool" where
  "is_high c = (55296 \<le> c \<and> c \<le> 56319)"

definition is_low :: "nat \<Rightarrow> bool" where
  "is_low c = (56320 \<le> c \<and> c \<le> 57343)"

definition code_point :: "nat \<Rightarrow> nat \<Rightarrow> nat" where
  "code_point c d = 65536 + (c - 55296) * 1024 + (d - 56320)"

definition units_of :: "nat \<Rightarrow> jsstring" where
  "units_of p =
    (if p < 65536 then [p] else [55296 + (p - 65536) div 1024, 56320 + (p - 65536) mod 1024])"

definition upper_units :: "nat \<Rightarrow> jsstring" where
  "upper_units p = concat (map units_of (upper_point p))"

fun toUpperCase :: "jsstring \<Rightarrow> jsstring" where
  "toUpperCase [] = []"
| "toUpperCase [c] = upper_units c"
| "toUpperCase (c # d # r) =
     (if is_high c \<and> is_low d then upper_units (code_point c d) @ toUpperCase r
      else upper_units c @ toUpperCase (d # r))"

text \<open>
  \<open>String.prototype.trim\<close> removes white space and line terminators from both ends.
\<close>

definition is_space :: "nat \<Rightarrow> bool" where
  "is_space c =
    (c = 9 \<or> c = 10 \<or> c = 11 \<or> c = 12 \<or> c = 13 \<or> c = 32 \<or> c = 160 \<or> c = 5760
     \<or> (8192 \<le> c \<and> c \<le> 8202) \<or> c = 8232 \<or> c = 8233 \<or> c = 8239 \<or> c = 8287
     \<or> c = 12288 \<or> c = 65279)"

definition trim :: "jsstring \<Rightarrow> jsstring" where
  "trim s = rev (dropWhile is_space (rev (dropWhile is_space s)))"

section \<open>Regular expressions\<close>

text \<open>
  The one regular expression with groups, in \<open>normalize\<close>, is anchored at both ends
  and is a sequence of character classes, each with a greedy repetition range. Such a
  pattern is a list of atoms. The matcher backtracks as the engine does: for each atom
  it tries the longest run first, then shorter ones, and it answers with the text
  matched by each atom of the first attempt that reaches the end of the input.
\<close>

datatype atom = Atom (cls: "nat \<Rightarrow> bool") (lo: nat) (hi: nat)

fun first_some :: "('a \<Rightarrow> 'b option) \<Rightarrow> 'a list \<Rightarrow> 'b option" where
  "first_some f [] = None"
| "first_some f (k # ks) = (case f k of Some r \<Rightarrow> Some r | None \<Rightarrow> first_some f ks)"

fun match_atoms :: "atom list \<Rightarrow> jsstring \<Rightarrow> jsstring list option" where
  "match_atoms [] s = (if s = [] then Some [] else None)"
| "match_atoms (a # as) s =
     first_some
       (\<lambda>k. if k \<le> length s \<and> list_all (cls a) (take k s)
            then map_option (\<lambda>gs. take k s # gs) (match_atoms as (drop k s))
            else None)
       (rev [lo a ..< Suc (hi a)])"

section \<open>The normalizer\<close>

text \<open>
  \<open>/^([A-Z]{1,2}\d[A-Z\d]?)(\d[A-Z]{2})$/\<close>: the first group is the first three atoms, the
  second group the last two.
\<close>

definition postcode_re :: "atom list" where
  "postcode_re =
    [Atom is_AZ 1 2, Atom is_digit 1 1, Atom (\<lambda>c. is_AZ c \<or> is_digit c) 0 1,
     Atom is_digit 1 1, Atom is_AZ 2 2]"

text \<open>\<open>s.toUpperCase().replace(/[^A-Z0-9]/g, '')\<close>\<close>

definition compact_of :: "jsstring \<Rightarrow> jsstring" where
  "compact_of s = filter is_alnum (toUpperCase s)"

text \<open>
  \<open>compact.replace(re, '$1 $2')\<close>: where the pattern matches, the whole string is replaced
  by the two groups with a space between them; where it does not, the string is returned
  as it is.
\<close>

definition spaced :: "jsstring \<Rightarrow> jsstring" where
  "spaced compact =
    (case match_atoms postcode_re compact of
       Some gs \<Rightarrow> concat (take 3 gs) @ [32] @ concat (drop 3 gs)
     | None \<Rightarrow> compact)"

definition normalize_token :: "jsstring \<Rightarrow> jsstring" where
  "normalize_token s =
    (let compact = compact_of s in
     if length compact < 5 \<or> length compact > 8 then []
     else spaced compact)"

text \<open>\<open>raw.replace(/,/g, '\n')\<close>\<close>

definition replace_commas :: "jsstring \<Rightarrow> jsstring" where
  "replace_commas s = map (\<lambda>c. if c = 44 then 10 else c) s"

text \<open>
  \<open>split(/\r?\n/)\<close>: a line feed, or a carriage return followed at once by a line feed,
  ends a piece; a carriage return alone is an ordinary character. The empty string
  splits into one empty piece.
\<close>

fun cons_first :: "nat \<Rightarrow> jsstring list \<Rightarrow> jsstring list" where
  "cons_first c [] = [[c]]"
| "cons_first c (l # ls) = (c # l) # ls"

fun split_lines :: "jsstring \<Rightarrow> jsstring list" where
  "split_lines [] = [[]]"
| "split_lines [c] = (if c = 10 then [[], []] else [[c]])"
| "split_lines (c # d # r) =
     (if c = 10 then [] # split_lines (d # r)
      else if c = 13 \<and> d = 10 then [] # split_lines r
      else cons_first c (split_lines (d # r)))"

text \<open>The loop over \<open>tokens\<close> with the set \<open>seen\<close> and the array \<open>out\<close>.\<close>

definition dedupe_step :: "jsstring \<Rightarrow> jsstring set \<times> jsstring list \<Rightarrow> jsstring set \<times> jsstring list" where
  "dedupe_step pc st =
    (case st of (seen, out) \<Rightarrow>
       if pc \<notin> seen then (insert pc seen, out @ [pc]) else (seen, out))"

definition dedupe :: "jsstring list \<Rightarrow> jsstring list" where
  "dedupe tokens = snd (fold dedupe_step tokens ({}, []))"

definition tokens_of :: "jsstring \<Rightarrow> jsstring list" where
  "tokens_of raw =
    filter (\<lambda>s. s \<noteq> [])
      (map (\<lambda>s. normalize_token (trim s)) (split_lines (replace_commas raw)))"

definition parsePostcodes :: "jsstring \<Rightarrow> jsstring list" where
  "parsePostcodes raw = dedupe (tokens_of raw)"

text \<open>\<open>Array.prototype.join\<close> on an array of strings.\<close>

fun join :: "jsstring \<Rightarrow> jsstring list \<Rightarrow> jsstring" where
  "join sep [] = []"
| "join sep [x] = x"
| "join sep (x # y # r) = x @ sep @ join sep (y # r)"

section \<open>Values and rows\<close>

text \<open>
  The values the program handles: \<open>undefined\<close>, \<open>null\<close>, strings, numbers (which the
  lookup service returns for latitude and longitude), and other values, functions and
  objects. The program only stores, tests against \<open>null\<close> and prints a number or another
  value, so each is given by the text that \<open>String\<close> makes of it: \<open>51.501009\<close> for that
  number, \<open>1e+21\<close> for ten to the power 21.
\<close>

datatype jsval = Undefined | Null | Str jsstring | Num jsstring | Other jsstring

fun toString :: "jsval \<Rightarrow> jsstring" where
  "toString Undefined = js ''undefined''"
| "toString Null = js ''null''"
| "toString (Str s) = s"
| "toString (Num t) = t"
| "toString (Other t) = t"

text \<open>
  A row is a plain object with string keys: its own properties in insertion order.
  Reading a key gives the own property if there is one, else the property that the
  object inherits from \<open>Object.prototype\<close>, else \<open>undefined\<close>. The inherited properties are
  the built-in functions, printed as V8 prints them, and \<open>__proto__\<close>, the prototype
  itself. An assignment replaces the value of an own key and appends a key that is not
  there.
\<close>

type_synonym row = "(jsstring \<times> jsval) list"

definition native_names :: "jsstring list" where
  "native_names =
    [js ''__defineGetter__'', js ''__defineSetter__'', js ''hasOwnProperty'',
     js ''__lookupGetter__'', js ''__lookupSetter__'', js ''isPrototypeOf'',
     js ''propertyIsEnumerable'', js ''toString'', js ''valueOf'', js ''toLocaleString'']"

definition inherited :: "jsstring \<Rightarrow> jsval" where
  "inherited h =
    (if h = js ''constructor'' then Other (js ''function Object() { [native code] }'')
     else if h \<in> set native_names then Other (js ''function '' @ h @ js ''() { [native code] }'')
     else if h = js ''__proto__'' then Other (js ''[object Object]'')
     else Undefined)"

definition get :: "row \<Rightarrow> jsstring \<Rightarrow> jsval" where
  "get r h = (case map_of r h of None \<Rightarrow> inherited h | Some v \<Rightarrow> v)"

fun assign :: "jsstring \<Rightarrow> jsval \<Rightarrow> row \<Rightarrow> row" where
  "assign k v [] = [(k, v)]"
| "assign k v (p # r) = (if fst p = k then (k, v) # r else p # assign k v r)"

definition nullish :: "jsval \<Rightarrow> bool" where
  "nullish v = (v = Null \<or> v = Undefined)"

section \<open>The CSV exporter\<close>

text \<open>\<open>str.replace(/"/g, '""')\<close> and the test \<open>/[",\n]/.test(str)\<close>\<close>

definition double_quotes :: "jsstring \<Rightarrow> jsstring" where
  "double_quotes str = concat (map (\<lambda>c. if c = 34 then [34, 34] else [c]) str)"

definition needs_quotes :: "jsstring \<Rightarrow> bool" where
  "needs_quotes str = list_ex (\<lambda>c. c = 34 \<or> c = 44 \<or> c = 10) str"

definition esc :: "jsval \<Rightarrow> jsstring" where
  "esc s =
    (if nullish s then []
     else (let str = toString s in
           if needs_quotes str then [34] @ double_quotes str @ [34] else str))"

text \<open>The array \<open>lines\<close>: the header line, then one line pushed for each row.\<close>

definition row_line :: "jsstring list \<Rightarrow> row \<Rightarrow> jsstring" where
  "row_line header r = join [44] (map (\<lambda>h. esc (get r h)) header)"

definition csv_lines :: "row list \<Rightarrow> jsstring list \<Rightarrow> jsstring list" where
  "csv_lines rows header =
    fold (\<lambda>r lines. lines @ [row_line header r]) rows [join [44] header]"

definition toCSV :: "row list \<Rightarrow> jsstring list \<Rightarrow> jsstring" where
  "toCSV rows header = join [10] (csv_lines rows header)"

section \<open>The page and the outside world\<close>

text \<open>
  What the functions below read and change: the text of the status element, the display
  style of the results element, the cells of the table (head and body), the two buttons,
  the data attributes of the download button, the object URLs revoked, and the trace: the
  batches requested and the delays slept, in the order in which they happened. A delay
  is awaited, so what follows it in the program follows it in the trace.
\<close>

datatype event = Request "jsstring list" | Sleep nat

record state =
  status :: jsstring
  results_display :: jsstring
  table_head :: "jsstring list list"
  table_body :: "jsstring list list"
  run_disabled :: bool
  download_disabled :: bool
  data_url :: "jsstring option"
  data_filename :: "jsstring option"
  trace :: "event list"
  revoked :: "jsstring list"

fun requests_of :: "event list \<Rightarrow> jsstring list list" where
  "requests_of [] = []"
| "requests_of (Request c # es) = c # requests_of es"
| "requests_of (Sleep ms # es) = requests_of es"

fun sleeps_of :: "event list \<Rightarrow> nat list" where
  "sleeps_of [] = []"
| "sleeps_of (Request c # es) = sleeps_of es"
| "sleeps_of (Sleep ms # es) = ms # sleeps_of es"

text \<open>The number of calls of the service so far.\<close>

definition calls :: "state \<Rightarrow> nat" where
  "calls st = length (requests_of (trace st))"

definition sleep :: "nat \<Rightarrow> state \<Rightarrow> state" where
  "sleep ms st = st\<lparr>trace := trace st @ [Sleep ms]\<rparr>"

text \<open>A page on which nothing has run yet, to try the functions on.\<close>

definition page0 :: state where
  "page0 =
    \<lparr>status = [], results_display = [], table_head = [], table_body = [],
     run_disabled = False, download_disabled = True, data_url = None, data_filename = None,
     trace = [], revoked = []\<rparr>"

section \<open>The table renderer\<close>

text \<open>What \<open>td.textContent = r[h] ?? ''\<close> leaves in the cell.\<close>

definition cell_text :: "jsval \<Rightarrow> jsstring" where
  "cell_text v = (if nullish v then [] else toString v)"

definition renderTable :: "row list \<Rightarrow> jsstring list \<Rightarrow> state \<Rightarrow> state" where
  "renderTable rows header st =
    (if rows = [] then st\<lparr>results_display := js ''none''\<rparr>
     else st\<lparr>results_display := js ''block'',
             table_head := [header],
             table_body := map (\<lambda>r. map (\<lambda>h. cell_text (get r h)) header) (take 500 rows)\<rparr>)"

section \<open>The batch enricher\<close>

definition MAX_BATCH :: nat where
  "MAX_BATCH = 100"

definition FIELDS :: "jsstring list" where
  "FIELDS =
    [js ''country'', js ''nhs_ha'', js ''admin_county'', js ''admin_district'',
     js ''admin_ward'', js ''parliamentary_constituency'', js ''european_electoral_region'',
     js ''primary_care_trust'', js ''region'', js ''parish'', js ''latitude'',
     js ''longitude'']"

text \<open>
  An element of the lookup service's \<open>result\<close> array: the query it answers and the match,
  which is \<open>null\<close> when the code is unknown. In a match the postcode is a string and the
  other properties are strings, numbers or \<open>null\<close>. \<open>None\<close> stands for \<open>null\<close> or an absent
  property.
\<close>

record match =
  postcode :: "jsstring option"
  props :: row

record item =
  query :: "jsstring option"
  result :: "match option"

text \<open>
  One call of \<open>fetch\<close>: it is rejected (a transport error, or a body that is not JSON), or
  it answers with the flag \<open>resp.ok\<close> and the \<open>result\<close> property of the body. The service
  is a function of the number of calls made so far and of the batch sent.
\<close>

datatype response = Rejected | Response bool "item list option"

type_synonym server = "nat \<Rightarrow> jsstring list \<Rightarrow> response"

text \<open>
  \<open>fetchBatch\<close>: \<open>None\<close> is a thrown error (the call was rejected, or \<open>resp.ok\<close> is
  false), \<open>Some\<close> the value of \<open>data.result || []\<close>. The call goes into the trace.
\<close>

definition outcome :: "response \<Rightarrow> item list option" where
  "outcome resp =
    (case resp of
       Rejected \<Rightarrow> None
     | Response ok res \<Rightarrow>
         if \<not> ok then None else Some (case res of None \<Rightarrow> [] | Some items \<Rightarrow> items))"

definition fetchBatch :: "server \<Rightarrow> jsstring list \<Rightarrow> state \<Rightarrow> item list option \<times> state" where
  "fetchBatch srv postcodes st =
    (outcome (srv (calls st) postcodes), st\<lparr>trace := trace st @ [Request postcodes]\<rparr>)"

datatype error = Error jsstring

text \<open>
  The decimal notation of a count, as a template literal prints an index or a length.
\<close>

function show_nat :: "nat \<Rightarrow> jsstring" where
  "show_nat n = (if n < 10 then [48 + n] else show_nat (n div 10) @ [48 + n mod 10])"
  by pat_completeness auto
termination
  by (relation "measure id") auto

declare show_nat.simps [simp del]

text \<open>The two progress texts of \<open>enrich\<close>.\<close>

definition fetching_msg :: "nat \<Rightarrow> nat \<Rightarrow> jsstring" where
  "fetching_msg i n =
    js ''Fetching '' @ show_nat (i + 1) @ js ''-'' @ show_nat (min (i + MAX_BATCH) n) @
    js '' of '' @ show_nat n @ [8230]"

definition retry_msg :: "nat \<Rightarrow> jsstring" where
  "retry_msg attempt =
    js ''Rate limited / error, retrying'' @ [8230] @ js '' ('' @ show_nat (attempt + 1) @ js '')''"

text \<open>The loop \<open>for (let attempt = 0; attempt < 3; attempt++)\<close> for one chunk.\<close>

function attempts :: "server \<Rightarrow> jsstring list \<Rightarrow> nat \<Rightarrow> state \<Rightarrow> item list option \<times> state" where
  "attempts srv chunk attempt st =
    (if attempt < 3 then
       (case fetchBatch srv chunk st of
          (Some res, st') \<Rightarrow> (Some res, st')
        | (None, st') \<Rightarrow>
            attempts srv chunk (attempt + 1)
              (sleep (750 * (attempt + 1)) (st'\<lparr>status := retry_msg attempt\<rparr>)))
     else (None, st))"
  by pat_completeness auto
termination
  by (relation "measure (\<lambda>(srv, chunk, attempt, st). 3 - attempt)") auto

declare attempts.simps [simp del]

text \<open>
  \<open>res?.postcode || item.query || ''\<close>, upper-cased, and the loop over \<open>FIELDS\<close> that fills
  the row.
\<close>

definition or_else :: "jsstring option \<Rightarrow> jsstring option \<Rightarrow> jsstring option" where
  "or_else a b = (case a of Some s \<Rightarrow> if s \<noteq> [] then Some s else b | None \<Rightarrow> b)"

definition field_value :: "match option \<Rightarrow> jsstring \<Rightarrow> jsval" where
  "field_value res f =
    (let v = (case res of
                None \<Rightarrow> Str []
              | Some m \<Rightarrow> if nullish (get (props m) f) then Str [] else get (props m) f)
     in if nullish v then Str [] else v)"

definition row_of_item :: "item \<Rightarrow> row" where
  "row_of_item it =
    (let res = result it;
         pc = (case or_else (or_else (case res of None \<Rightarrow> None | Some m \<Rightarrow> postcode m)
                               (query it)) (Some []) of
                 Some s \<Rightarrow> s | None \<Rightarrow> [])
     in fold (\<lambda>f row. assign f (field_value res f) row) FIELDS
          [(js ''postcode'', Str (toUpperCase pc))])"

text \<open>The loop over the chunks, and \<open>enrich\<close>. A thrown error leaves no rows behind.\<close>

function chunks_loop ::
  "server \<Rightarrow> jsstring list \<Rightarrow> nat \<Rightarrow> row list \<Rightarrow> state \<Rightarrow> (error + row list) \<times> state" where
  "chunks_loop srv postcodes i rows st =
    (if i < length postcodes then
       (let chunk = take MAX_BATCH (drop i postcodes);
            st1 = st\<lparr>status := fetching_msg i (length postcodes)\<rparr>
        in case attempts srv chunk 0 st1 of
             (None, st2) \<Rightarrow> (Inl (Error (js ''Failed to fetch after retries'')), st2)
           | (Some res, st2) \<Rightarrow>
               chunks_loop srv postcodes (i + MAX_BATCH) (rows @ map row_of_item res)
                 (sleep 80 st2))
     else (Inr rows, st))"
  by pat_completeness auto
termination
  by (relation "measure (\<lambda>(srv, postcodes, i, rows, st). length postcodes - i)")
    (auto simp: MAX_BATCH_def)

declare chunks_loop.simps [simp del]

definition enrich :: "server \<Rightarrow> jsstring list \<Rightarrow> state \<Rightarrow> (error + row list) \<times> state" where
  "enrich srv postcodes st =
    (case chunks_loop srv postcodes 0 [] st of
       (Inl e, st') \<Rightarrow> (Inl e, st')
     | (Inr rows, st') \<Rightarrow>
         (Inr rows, st'\<lparr>status := js ''Done. '' @ show_nat (length rows) @ js '' rows.''\<rparr>))"

section \<open>The controller\<close>


section \<open>Notions of the specification\<close>

subsection \<open>Postal codes\<close>

text \<open>
  A token is length-valid when its compacted form has 5 to 8 characters. The full
  postal-code shape is an outward part (one or two letters, a digit, and at most one
  further letter or digit) followed by an inward part (a digit and two letters).
\<close>

definition length_valid :: "jsstring \<Rightarrow> bool" where
  "length_valid t = (5 \<le> length (compact_of t) \<and> length (compact_of t) \<le> 8)"

definition inward_shape :: "jsstring \<Rightarrow> bool" where
  "inward_shape t = (length t = 3 \<and> is_digit (t ! 0) \<and> is_AZ (t ! 1) \<and> is_AZ (t ! 2))"

definition outward_shape :: "jsstring \<Rightarrow> bool" where
  "outward_shape t =
    (\<exists>n \<in> {1, 2}. \<exists>m \<in> {0, 1}. length t = n + 1 + m \<and> list_all is_AZ (take n t) \<and>
        is_digit (t ! n) \<and> list_all (\<lambda>c. is_AZ c \<or> is_digit c) (drop (n + 1) t))"

definition full_shape :: "jsstring \<Rightarrow> bool" where
  "full_shape c =
    (3 \<le> length c \<and> outward_shape (take (length c - 3) c) \<and>
     inward_shape (drop (length c - 3) c))"

text \<open>
  The position of the first occurrence of an element in a list, and the list of first
  occurrences: each element once, where it first stands.
\<close>

fun index_of :: "'a list \<Rightarrow> 'a \<Rightarrow> nat" where
  "index_of [] x = 0"
| "index_of (y # ys) x = (if x = y then 0 else Suc (index_of ys x))"

fun firsts :: "'a list \<Rightarrow> 'a list" where
  "firsts [] = []"
| "firsts (x # xs) = x # filter (\<lambda>y. y \<noteq> x) (firsts xs)"

subsection \<open>Batches and retries\<close>

text \<open>
  The consecutive chunks of at most 100 codes; the number of failed calls, out of three
  at most, that the service makes a chunk wait for from its \<open>n\<close>-th call on; and the
  items that the service hands out for a list of chunks asked one after the other with
  that retry policy, if none of them exhausts its three attempts.
\<close>

function chunks_of :: "'a list \<Rightarrow> 'a list list" where
  "chunks_of xs = (if xs = [] then [] else take MAX_BATCH xs # chunks_of (drop MAX_BATCH xs))"
  by pat_completeness auto
termination
  by (relation "measure length") (auto simp: MAX_BATCH_def)

declare chunks_of.simps [simp del]

definition fails_before :: "server \<Rightarrow> jsstring list \<Rightarrow> nat \<Rightarrow> nat" where
  "fails_before srv chunk n =
    (if outcome (srv n chunk) \<noteq> None then 0
     else if outcome (srv (n + 1) chunk) \<noteq> None then 1
     else if outcome (srv (n + 2) chunk) \<noteq> None then 2
     else 3)"

fun fetched :: "server \<Rightarrow> jsstring list list \<Rightarrow> nat \<Rightarrow> item list list option" where
  "fetched srv [] n = Some []"
| "fetched srv (c # cs) n =
     (let f = fails_before srv c n in
      if f = 3 then None
      else (case outcome (srv (n + f) c) of
              None \<Rightarrow> None
            | Some items \<Rightarrow> map_option (\<lambda>iss. items # iss) (fetched srv cs (n + f + 1))))"

text \<open>
  What a chunk with \<open>f\<close> failed calls adds to the trace: each failed request, then the
  delay of 750 ms times its number, then the next request; after the third failure the
  delay and no further request.
\<close>

definition attempt_events :: "jsstring list \<Rightarrow> nat \<Rightarrow> event list" where
  "attempt_events chunk f =
    concat (map (\<lambda>j. [Request chunk, Sleep (750 * j)]) [1..<Suc f]) @
    (if f = 3 then [] else [Request chunk])"

text \<open>What \<open>enrich\<close> leaves alone on the page.\<close>

definition untouched :: "state \<Rightarrow> state \<Rightarrow> bool" where
  "untouched st st' =
    (results_display st' = results_display st \<and> table_head st' = table_head st \<and>
     table_body st' = table_body st \<and> run_disabled st' = run_disabled st \<and>
     download_disabled st' = download_disabled st \<and> data_url st' = data_url st \<and>
     data_filename st' = data_filename st \<and> revoked st' = revoked st)"

text \<open>
  Sample answers of the service: an item with a match, an item without one, another
  whose query starts with a small e with acute accent, a service
  that answers every call with both, one whose first two calls are rejected, and one
  that answers every call with an error status.
\<close>

definition item_match :: item where
  "item_match =
    \<lparr>query = Some (js ''sw1a1aa''),
     result = Some \<lparr>postcode = Some (js ''SW1A 1AA''),
                    props = [(js ''country'', Str (js ''England'')), (js ''parish'', Null),
                             (js ''latitude'', Num (js ''51.501009''))]\<rparr>\<rparr>"

definition item_nomatch :: item where
  "item_nomatch = \<lparr>query = Some (js ''zz99 9zz''), result = None\<rparr>"

definition item_accent :: item where
  "item_accent = \<lparr>query = Some (233 # js ''c1a 1bb''), result = None\<rparr>"

definition up :: server where
  "up n c = Response True (Some [item_match, item_nomatch])"



subsection \<open>Reading CSV\<close>

text \<open>
  The reader of the specification: the standard comma/quote-aware CSV parser that the
  round-trip property of the exporter appeals to, written out from the specification's
  words (comma-delimited, RFC-4180-style quoting). It is the yardstick for the exporter,
  not part of the program. The reader goes through the text character by character.
  Outside a quoted field a comma ends a field, and a line feed, a carriage return, or a
  carriage return with the line feed after it ends a record. A quoted field starts with
  a double quote at the start of a field and ends at the next double quote that is not
  doubled; a doubled double quote inside it stands for one, and commas, line feeds and
  carriage returns inside it are data. At the end of the text the record being read is
  the last one; when the text ends with the end of a record, or is empty, no record
  follows. An empty line between two records is a record of one empty field.
\<close>

datatype mode = RecordStart | AfterCR | FieldStart | Unquoted | Quoted | QuoteSeen

type_synonym reader = "mode \<times> jsstring \<times> jsstring list \<times> jsstring list list"

definition csv_step :: "reader \<Rightarrow> nat \<Rightarrow> reader" where
  "csv_step rd c =
    (case rd of (m, f, r, rs) \<Rightarrow>
       if m = Quoted then (if c = 34 then (QuoteSeen, f, r, rs) else (Quoted, f @ [c], r, rs))
       else if c = 44 then (FieldStart, [], r @ [f], rs)
       else if c = 10 then
         (if m = AfterCR then (RecordStart, [], [], rs) else (RecordStart, [], [], rs @ [r @ [f]]))
       else if c = 13 then (AfterCR, [], [], rs @ [r @ [f]])
       else if c = 34 \<and> (m = RecordStart \<or> m = AfterCR \<or> m = FieldStart) then (Quoted, f, r, rs)
       else if c = 34 \<and> m = QuoteSeen then (Quoted, f @ [34], r, rs)
       else (Unquoted, f @ [c], r, rs))"

definition parseCSV :: "jsstring \<Rightarrow> jsstring list list" where
  "parseCSV text =
    (case foldl csv_step (RecordStart, [], [], []) text of
       (m, f, r, rs) \<Rightarrow> if m = RecordStart \<or> m = AfterCR then rs else rs @ [r @ [f]])"

text \<open>
  The reader is inside a record when it has read a comma or a character of a field and
  is not inside quotes. A line ends with a record when the reader, started on the line
  at the start of a record, is inside a record at the end of the line and has just that
  record in hand.
\<close>

definition inside :: "mode \<Rightarrow> bool" where
  "inside m = (m = FieldStart \<or> m = Unquoted \<or> m = QuoteSeen)"

definition ends_with :: "jsstring \<Rightarrow> jsstring list \<Rightarrow> bool" where
  "ends_with l cells =
    (\<exists>m f r. inside m \<and> r @ [f] = cells \<and>
       foldl csv_step (RecordStart, [], [], []) l = (m, f, r, []))"

text \<open>
  The inputs on which the round trip is stated. No line of the export is empty: there
  are two header names or more, or the one header name and the text of every row's value
  for it are not empty. No text has a bare carriage return, one in a text that the
  exporter does not quote. A header name is clean when it has no double quote, line
  feed or carriage return. The text of a JSON number is made of digits, signs, the point
  and the letter e.
\<close>

definition no_empty_line :: "row list \<Rightarrow> jsstring list \<Rightarrow> bool" where
  "no_empty_line rows header =
    (2 \<le> length header \<or>
     (length header = 1 \<and> hd header \<noteq> [] \<and>
      list_all (\<lambda>r. cell_text (get r (hd header)) \<noteq> []) rows))"

definition bare_cr :: "jsstring \<Rightarrow> bool" where
  "bare_cr t = (13 \<in> set t \<and> \<not> needs_quotes t)"

definition no_bare_cr :: "row list \<Rightarrow> jsstring list \<Rightarrow> bool" where
  "no_bare_cr rows header =
    list_all (\<lambda>r. list_all (\<lambda>h. \<not> bare_cr (cell_text (get r h))) header) rows"

definition clean_name :: "jsstring \<Rightarrow> bool" where
  "clean_name h = (34 \<notin> set h \<and> 10 \<notin> set h \<and> 13 \<notin> set h)"

definition number_text :: "jsstring \<Rightarrow> bool" where
  "number_text t =
    (t \<noteq> [] \<and> list_all (\<lambda>c. is_digit c \<or> c = 43 \<or> c = 45 \<or> c = 46 \<or> c = 101) t)"

subsection \<open>Normalized codes\<close>

text \<open>The characters a normalized code is made of: capitals, digits and the space.\<close>

definition plain :: "jsstring \<Rightarrow> bool" where
  "plain p = list_all (\<lambda>c. is_alnum c \<or> c = 32) p"

section \<open>The regular expression of the normalizer\<close>

lemma list5: "length (c::nat list) = 5 \<Longrightarrow> \<exists>a b d e f. c = [a,b,d,e,f]"
  by (auto simp: length_Suc_conv eval_nat_numeral)

lemma list6: "length (c::nat list) = 6 \<Longrightarrow> \<exists>a b d e f g. c = [a,b,d,e,f,g]"
  by (auto simp: length_Suc_conv eval_nat_numeral)

lemma list7: "length (c::nat list) = 7 \<Longrightarrow> \<exists>a b d e f g h. c = [a,b,d,e,f,g,h]"
  by (auto simp: length_Suc_conv eval_nat_numeral)

lemma list8: "length (c::nat list) = 8 \<Longrightarrow> \<exists>a b d e f g h i. c = [a,b,d,e,f,g,h,i]"
  by (auto simp: length_Suc_conv eval_nat_numeral)

lemmas shape_defs = spaced_def postcode_re_def upt_rec full_shape_def outward_shape_def
  inward_shape_def

lemma spaced5: "length c = 5 \<Longrightarrow> spaced c = (if full_shape c then take 2 c @ [32] @ drop 2 c else c)"
proof -
  assume "length c = 5"
  then obtain a b d e f where c: "c = [a,b,d,e,f]" using list5 by blast
  show ?thesis unfolding c by (simp add: shape_defs)
qed

lemma spaced6: "length c = 6 \<Longrightarrow> spaced c = (if full_shape c then take 3 c @ [32] @ drop 3 c else c)"
proof -
  assume "length c = 6"
  then obtain a b d e f g where c: "c = [a,b,d,e,f,g]" using list6 by blast
  show ?thesis unfolding c by (simp add: shape_defs)
qed

lemma spaced7: "length c = 7 \<Longrightarrow> spaced c = (if full_shape c then take 4 c @ [32] @ drop 4 c else c)"
proof -
  assume "length c = 7"
  then obtain a b d e f g h where c: "c = [a,b,d,e,f,g,h]" using list7 by blast
  show ?thesis unfolding c by (simp add: shape_defs)
qed

lemma spaced8: "length c = 8 \<Longrightarrow> spaced c = c \<and> \<not> full_shape c"
proof -
  assume "length c = 8"
  then obtain a b d e f g h i where c: "c = [a,b,d,e,f,g,h,i]" using list8 by blast
  show ?thesis unfolding c by (simp add: shape_defs)
qed

lemma spaced_shape:
  assumes "5 \<le> length c" "length c \<le> 8"
  shows "spaced c = (if full_shape c then take (length c - 3) c @ [32] @ drop (length c - 3) c else c)"
proof -
  from assms consider "length c = 5" | "length c = 6" | "length c = 7" | "length c = 8"
    by linarith
  then show ?thesis
  proof cases
    case 1 then show ?thesis using spaced5 [OF 1] by simp
  next
    case 2 then show ?thesis using spaced6 [OF 2] by simp
  next
    case 3 then show ?thesis using spaced7 [OF 3] by simp
  next
    case 4 then show ?thesis using spaced8 [OF 4] by simp
  qed
qed

subsection \<open>dedupe\<close>

lemma fold_dedupe_step:
  "fold dedupe_step ts (set out, out) =
     (set out \<union> set ts, out @ filter (\<lambda>x. x \<notin> set out) (firsts ts))"
proof (induction ts arbitrary: out)
  case Nil
  then show ?case by simp
next
  case (Cons t ts)
  show ?case
  proof (cases "t \<in> set out")
    case True
    then have "filter (\<lambda>x. x \<notin> set out) (filter (\<lambda>y. y \<noteq> t) (firsts ts))
        = filter (\<lambda>x. x \<notin> set out) (firsts ts)"
      by (auto intro: filter_cong)
    with True Cons.IH [of out] show ?thesis
      by (auto simp: dedupe_step_def)
  next
    case False
    have "filter (\<lambda>x. x \<notin> set (out @ [t])) (firsts ts)
        = filter (\<lambda>x. x \<notin> set out) (filter (\<lambda>y. y \<noteq> t) (firsts ts))"
      by (auto intro: filter_cong)
    with False Cons.IH [of "out @ [t]"] show ?thesis
      by (auto simp: dedupe_step_def)
  qed
qed

lemma dedupe_firsts: "dedupe ts = firsts ts"
  using fold_dedupe_step [of ts "[]"] by (simp add: dedupe_def)

lemma set_firsts: "set (firsts xs) = set xs"
  by (induction xs) auto

lemma distinct_firsts: "distinct (firsts xs)"
  by (induction xs) (auto simp: set_firsts)

lemma firsts_distinct: "distinct xs \<Longrightarrow> firsts xs = xs"
proof (induction xs)
  case Nil
  then show ?case by simp
next
  case (Cons x xs)
  then have "filter (\<lambda>y. y \<noteq> x) xs = xs"
    by (auto intro: filter_True)
  with Cons show ?case by simp
qed

lemma sorted_firsts: "sorted_wrt (\<lambda>x y. index_of xs x < index_of xs y) (firsts xs)"
proof (induction xs)
  case Nil
  then show ?case by simp
next
  case (Cons x xs)
  have "sorted_wrt (\<lambda>a b. index_of (x # xs) a < index_of (x # xs) b)
          (filter (\<lambda>y. y \<noteq> x) (firsts xs))"
    by (rule sorted_wrt_mono_rel [OF _ sorted_wrt_filter [OF Cons.IH]]) auto
  then show ?case by auto
qed

subsection \<open>trim, compact, split on canonical strings\<close>

lemma special_above: "list_all (\<lambda>e. 128 \<le> fst e) upper_special"
  by (simp add: upper_special_def)

lemma ranges_above: "list_all (\<lambda>e. 128 \<le> fst e) upper_ranges"
  by (simp add: upper_ranges_def)

lemma upper_point_ascii:
  assumes "c < 128"
  shows "upper_point c = [if 97 \<le> c \<and> c \<le> 122 then c - 32 else c]"
proof -
  from assms special_above have "c \<notin> fst ` set upper_special"
    by (auto simp: list_all_iff)
  then have 1: "map_of upper_special c = None"
    by (simp add: map_of_eq_None_iff)
  from assms ranges_above have "\<forall>e \<in> set upper_ranges. \<not> in_range c e"
    by (auto simp: list_all_iff in_range_def)
  then have 2: "find (in_range c) upper_ranges = None"
    by (simp add: find_None_iff)
  from 1 2 show ?thesis by (simp add: upper_point_def)
qed

lemma upper_units_ascii:
  "c < 128 \<Longrightarrow> upper_units c = [if 97 \<le> c \<and> c \<le> 122 then c - 32 else c]"
  by (auto simp: upper_units_def upper_point_ascii units_of_def)

lemma toUpperCase_ascii:
  "list_all (\<lambda>c. c < 128) s \<Longrightarrow>
    toUpperCase s = map (\<lambda>c. if 97 \<le> c \<and> c \<le> 122 then c - 32 else c) s"
  by (induction s rule: toUpperCase.induct) (simp_all add: upper_units_ascii is_high_def)

lemma compact_of_ascii:
  "list_all (\<lambda>c. c < 128) s \<Longrightarrow>
    compact_of s = filter is_alnum (map (\<lambda>c. if 97 \<le> c \<and> c \<le> 122 then c - 32 else c) s)"
  by (simp add: compact_of_def toUpperCase_ascii)

lemma toUpperCase_plain:
  assumes "list_all (\<lambda>c. is_alnum c \<or> c = 32) p"
  shows "toUpperCase p = p"
proof -
  from assms have "list_all (\<lambda>c. c < 128) p"
    by (auto simp: list_all_iff is_alnum_def is_AZ_def is_digit_def)
  then have "toUpperCase p = map (\<lambda>c. if 97 \<le> c \<and> c \<le> 122 then c - 32 else c) p"
    by (rule toUpperCase_ascii)
  also from assms have "\<dots> = map (\<lambda>c. c) p"
    by (intro map_cong) (auto simp: list_all_iff is_alnum_def is_AZ_def is_digit_def)
  finally show ?thesis by simp
qed

lemma compact_of_alnum: "list_all is_alnum x \<Longrightarrow> compact_of x = x"
  using toUpperCase_plain [of x]
  by (simp add: compact_of_def list_all_iff)

lemma compact_of_spaced:
  assumes "list_all is_alnum x" "list_all is_alnum y"
  shows "compact_of (x @ [32] @ y) = x @ y"
proof -
  from assms have "toUpperCase (x @ [32] @ y) = x @ [32] @ y"
    by (intro toUpperCase_plain) (auto simp: list_all_iff)
  moreover have "\<not> is_alnum 32" by (simp add: is_alnum_def is_AZ_def is_digit_def)
  ultimately show ?thesis using assms by (simp add: compact_of_def list_all_iff)
qed

lemma alnum_compact_of: "list_all is_alnum (compact_of s)"
  by (simp add: compact_of_def list_all_iff)

lemma alnum_not_space: "is_alnum c \<Longrightarrow> \<not> is_space c"
  by (auto simp: is_alnum_def is_AZ_def is_digit_def is_space_def)

lemma trim_id:
  assumes "s \<noteq> []" "\<not> is_space (hd s)" "\<not> is_space (last s)"
  shows "trim s = s"
proof -
  from assms have 1: "dropWhile is_space s = s"
    by (cases s) auto
  from assms have "dropWhile is_space (rev s) = rev s"
    by (cases "rev s") (auto simp: last_rev [symmetric] hd_rev)
  with 1 show ?thesis by (simp add: trim_def)
qed

lemma normalize_token_valid:
  "length_valid t \<Longrightarrow> normalize_token t = spaced (compact_of t)"
  by (auto simp: normalize_token_def length_valid_def Let_def)

lemma normalize_token_invalid:
  "\<not> length_valid t \<Longrightarrow> normalize_token t = []"
  by (auto simp: normalize_token_def length_valid_def Let_def)

lemma spaced_nonempty: "5 \<le> length c \<Longrightarrow> length c \<le> 8 \<Longrightarrow> spaced c \<noteq> []"
  by (auto simp: spaced_shape)

lemma normalize_token_empty_iff: "normalize_token t = [] \<longleftrightarrow> \<not> length_valid t"
  using spaced_nonempty [of "compact_of t"]
  by (auto simp: normalize_token_def length_valid_def Let_def)

lemma spaced_fixed:
  assumes len: "5 \<le> length c" "length c \<le> 8" and al: "list_all is_alnum c"
  shows "plain (spaced c) \<and> trim (spaced c) = spaced c \<and> compact_of (spaced c) = c"
proof (cases "full_shape c")
  case False
  with len have s: "spaced c = c" by (simp add: spaced_shape)
  from len obtain x xs where c: "c = x # xs" by (cases c) auto
  from al have "\<not> is_space (hd c)" "\<not> is_space (last c)"
    using len c by (auto simp: list_all_iff alnum_not_space)
  with len have "trim c = c" by (intro trim_id) auto
  moreover from al have "plain c" by (auto simp: plain_def list_all_iff)
  ultimately show ?thesis using s al by (simp add: compact_of_alnum)
next
  case True
  define k where "k = length c - 3"
  define x where "x = take k c"
  define y where "y = drop k c"
  from True len have s: "spaced c = x @ [32] @ y"
    by (simp add: spaced_shape k_def x_def y_def)
  have xy: "x @ y = c" by (simp add: x_def y_def)
  from al xy have ax: "list_all is_alnum x" and ay: "list_all is_alnum y"
    by (auto simp: list_all_iff x_def y_def dest: in_set_takeD in_set_dropD)
  from len have nx: "x \<noteq> []" and ny: "y \<noteq> []" by (auto simp: x_def y_def k_def)
  from nx ax have "\<not> is_space (hd (x @ [32] @ y))"
    by (cases x) (auto simp: alnum_not_space)
  moreover from ny ay have "\<not> is_space (last (x @ [32] @ y))"
    by (auto simp: list_all_iff alnum_not_space)
  ultimately have "trim (x @ [32] @ y) = x @ [32] @ y"
    by (intro trim_id) auto
  moreover have "compact_of (x @ [32] @ y) = c"
    using compact_of_spaced [OF ax ay] xy by simp
  moreover have "plain (x @ [32] @ y)"
    using ax ay by (auto simp: plain_def list_all_iff)
  ultimately show ?thesis using s by simp
qed

lemma normalize_token_fixed:
  assumes "normalize_token t \<noteq> []"
  shows "plain (normalize_token t) \<and> trim (normalize_token t) = normalize_token t \<and>
    length_valid (normalize_token t) \<and>
    normalize_token (normalize_token t) = normalize_token t"
proof -
  from assms have v: "length_valid t" by (simp add: normalize_token_empty_iff)
  then have n: "normalize_token t = spaced (compact_of t)" by (rule normalize_token_valid)
  from v have len: "5 \<le> length (compact_of t)" "length (compact_of t) \<le> 8"
    by (auto simp: length_valid_def)
  note f = spaced_fixed [OF len alnum_compact_of]
  from f len have lv: "length_valid (spaced (compact_of t))" by (simp add: length_valid_def)
  then have "normalize_token (spaced (compact_of t)) = spaced (compact_of t)"
    using f by (simp add: normalize_token_valid)
  with f n lv show ?thesis by simp
qed

lemma replace_commas_plain: "44 \<notin> set s \<Longrightarrow> replace_commas s = s"
  by (induction s) (auto simp: replace_commas_def)

lemma split_lines_single: "10 \<notin> set p \<Longrightarrow> 13 \<notin> set p \<Longrightarrow> split_lines p = [p]"
  by (induction p rule: split_lines.induct) auto

lemma split_lines_line:
  "10 \<notin> set p \<Longrightarrow> 13 \<notin> set p \<Longrightarrow> split_lines (p @ 10 # rest) = p # split_lines rest"
proof (induction p)
  case Nil
  then show ?case by (cases rest) auto
next
  case (Cons c p)
  obtain d r where "p @ 10 # rest = d # r" by (cases p) auto
  with Cons show ?case by auto
qed

lemma plain_chars: "plain p \<Longrightarrow> 10 \<notin> set p \<and> 13 \<notin> set p \<and> 44 \<notin> set p"
  by (auto simp: plain_def list_all_iff is_alnum_def is_AZ_def is_digit_def)

lemma set_join: "set (join sep ps) \<subseteq> set sep \<union> \<Union> (set ` set ps)"
  by (induction sep ps rule: join.induct) auto

lemma split_lines_join:
  "ps \<noteq> [] \<Longrightarrow> \<forall>p \<in> set ps. plain p \<Longrightarrow> split_lines (join [10] ps) = ps"
proof (induction "[10::nat]" ps rule: join.induct)
  case 1
  then show ?case by simp
next
  case (2 x)
  then show ?case by (simp add: split_lines_single plain_chars)
next
  case (3 x y r)
  then show ?case by (simp add: split_lines_line plain_chars)
qed

lemma normalize_token_nil: "normalize_token (trim []) = []"
  by (simp add: trim_def normalize_token_def compact_of_def)

lemma no_comma_join:
  assumes "\<forall>p \<in> set ps. plain p"
  shows "44 \<notin> set (join [10] ps)"
proof
  assume "44 \<in> set (join [10] ps)"
  with set_join [of "[10]" ps] obtain p where "p \<in> set ps" "44 \<in> set p" by auto
  with assms plain_chars [of p] show False by simp
qed

lemma tokens_of_join:
  assumes "\<forall>p \<in> set ps. plain p \<and> p \<noteq> [] \<and> normalize_token (trim p) = p"
  shows "tokens_of (join [10] ps) = ps"
proof (cases "ps = []")
  case True
  then show ?thesis
    by (simp add: tokens_of_def replace_commas_def normalize_token_nil)
next
  case False
  from assms have "44 \<notin> set (join [10] ps)"
    by (intro no_comma_join) simp
  then have "replace_commas (join [10] ps) = join [10] ps" by (rule replace_commas_plain)
  moreover have "split_lines (join [10] ps) = ps"
    using False assms by (intro split_lines_join) simp_all
  moreover have "map (\<lambda>s. normalize_token (trim s)) ps = ps"
    using assms by (intro map_idI) simp
  moreover have "filter (\<lambda>s. s \<noteq> []) ps = ps"
    using assms by (intro filter_True) simp
  ultimately show ?thesis by (simp add: tokens_of_def)
qed

lemma tokens_of_fixed:
  assumes "p \<in> set (tokens_of raw)"
  shows "plain p \<and> p \<noteq> [] \<and> trim p = p \<and> length_valid p \<and> normalize_token p = p"
proof -
  from assms obtain s where p: "p = normalize_token (trim s)" and ne: "p \<noteq> []"
    by (auto simp: tokens_of_def)
  from ne normalize_token_fixed [of "trim s"] show ?thesis
    unfolding p by simp
qed

lemma parse_idem: "parsePostcodes (join [10] (parsePostcodes raw)) = parsePostcodes raw"
proof -
  have "\<forall>p \<in> set (parsePostcodes raw). plain p \<and> p \<noteq> [] \<and> normalize_token (trim p) = p"
    using tokens_of_fixed [of _ raw] by (simp add: parsePostcodes_def dedupe_firsts set_firsts)
  then have "tokens_of (join [10] (parsePostcodes raw)) = parsePostcodes raw"
    by (rule tokens_of_join)
  moreover have "distinct (parsePostcodes raw)"
    by (simp add: parsePostcodes_def dedupe_firsts distinct_firsts)
  ultimately show ?thesis
    by (simp add: parsePostcodes_def [of "join [10] (parsePostcodes raw)"] dedupe_firsts firsts_distinct)
qed

section \<open>The normalizer: claims\<close>

subsection \<open>Worked inputs\<close>

lemmas char_defs = is_AZ_def is_digit_def is_alnum_def is_space_def
lemmas token_defs = js_def trim_def compact_of_ascii normalize_token_def Let_def
  spaced_def postcode_re_def upt_rec char_defs

lemma js_nonempty: "js (c # s) \<noteq> []"
  by (simp add: js_def)


lemma ex_split: "split_lines (replace_commas (js ''SW1A 1AA, sw1a1aa'' @ [10] @ js ''SW1A  1AA''))
    = [js ''SW1A 1AA'', js '' sw1a1aa'', js ''SW1A  1AA'']"
  by (simp add: js_def replace_commas_def)

lemma ex_norm1: "normalize_token (trim (js ''SW1A 1AA'')) = js ''SW1A 1AA''"
  by (simp add: token_defs)

lemma ex_norm2: "normalize_token (trim (js '' sw1a1aa'')) = js ''SW1A 1AA''"
  by (simp add: token_defs)

lemma ex_norm3: "normalize_token (trim (js ''SW1A  1AA'')) = js ''SW1A 1AA''"
  by (simp add: token_defs)

lemma ex_tokens: "tokens_of (js ''SW1A 1AA, sw1a1aa'' @ [10] @ js ''SW1A  1AA'')
    = [js ''SW1A 1AA'', js ''SW1A 1AA'', js ''SW1A 1AA'']"
  unfolding tokens_of_def ex_split
  by (simp add: ex_norm1 ex_norm2 ex_norm3) (simp add: js_def)

lemma ex_parse: "parsePostcodes (js ''SW1A 1AA, sw1a1aa'' @ [10] @ js ''SW1A  1AA'') = [js ''SW1A 1AA'']"
  unfolding parsePostcodes_def ex_tokens by (simp add: dedupe_firsts)

lemma ex_AB: "parsePostcodes (js ''AB'') = []"
proof -
  have "split_lines (replace_commas (js ''AB'')) = [js ''AB'']"
    by (simp add: js_def replace_commas_def)
  moreover have "normalize_token (trim (js ''AB'')) = []"
    by (simp add: token_defs)
  ultimately show ?thesis
    by (simp add: parsePostcodes_def tokens_of_def dedupe_firsts)
qed

text \<open>
  C3. For every raw text the list that \<open>parsePostcodes\<close> returns has no duplicates, holds
  exactly the normalized tokens of the input, and lists them in the order of their first
  occurrences among those tokens; the text \<open>SW1A 1AA, sw1a1aa\n SW1A  1AA\<close> gives the one
  code \<open>SW1A 1AA\<close>.
\<close>

theorem parsePostcodes_unique_first_occurrence:
  "distinct (parsePostcodes raw) \<and>
   set (parsePostcodes raw) = set (tokens_of raw) \<and>
   sorted_wrt (\<lambda>x y. index_of (tokens_of raw) x < index_of (tokens_of raw) y) (parsePostcodes raw) \<and>
   parsePostcodes (js ''SW1A 1AA, sw1a1aa'' @ [10] @ js ''SW1A  1AA'') = [js ''SW1A 1AA'']"
proof (intro conjI)
  show "distinct (parsePostcodes raw)"
    by (simp add: parsePostcodes_def dedupe_firsts distinct_firsts)
  show "set (parsePostcodes raw) = set (tokens_of raw)"
    by (simp add: parsePostcodes_def dedupe_firsts set_firsts)
  show "sorted_wrt (\<lambda>x y. index_of (tokens_of raw) x < index_of (tokens_of raw) y)
      (parsePostcodes raw)"
    by (simp add: parsePostcodes_def dedupe_firsts sorted_firsts)
  show "parsePostcodes (js ''SW1A 1AA, sw1a1aa'' @ [10] @ js ''SW1A  1AA'') = [js ''SW1A 1AA'']"
    by (rule ex_parse)
qed

text \<open>
  C4. A token whose compacted form is shorter than 5 or longer than 8 characters
  normalizes to the empty string, which the filter removes: the result of
  \<open>parsePostcodes\<close> is computed from the length-valid tokens alone, every code in it is
  length-valid, and no error arises (the function is total). The text \<open>AB\<close> gives the
  empty list.
\<close>

theorem parsePostcodes_drops_bad_length:
  "(\<not> length_valid t \<longrightarrow> normalize_token t = []) \<and>
   parsePostcodes raw =
     dedupe (map normalize_token
       (filter length_valid (map trim (split_lines (replace_commas raw))))) \<and>
   (\<forall>p \<in> set (parsePostcodes raw). length_valid p) \<and>
   parsePostcodes (js ''AB'') = []"
proof (intro conjI ballI)
  show "\<not> length_valid t \<longrightarrow> normalize_token t = []"
    by (simp add: normalize_token_invalid)
  have "filter (\<lambda>s. s \<noteq> []) (map normalize_token ts)
      = map normalize_token (filter length_valid ts)" for ts
    by (induction ts) (simp_all add: normalize_token_empty_iff)
  from this [of "map trim (split_lines (replace_commas raw))"]
  show "parsePostcodes raw =
     dedupe (map normalize_token
       (filter length_valid (map trim (split_lines (replace_commas raw)))))"
    by (simp add: parsePostcodes_def tokens_of_def comp_def)
  show "length_valid p" if "p \<in> set (parsePostcodes raw)" for p
  proof -
    from that have "p \<in> set (tokens_of raw)"
      by (simp add: parsePostcodes_def dedupe_firsts set_firsts)
    then show ?thesis using tokens_of_fixed by blast
  qed
  show "parsePostcodes (js ''AB'') = []" by (rule ex_AB)
qed

lemma ex_mixed: "parsePostcodes (js ''AB, sw1a1aa'') = [js ''SW1A 1AA'']"
proof -
  have "split_lines (replace_commas (js ''AB, sw1a1aa'')) = [js ''AB'', js '' sw1a1aa'']"
    by (simp add: js_def replace_commas_def)
  moreover have "normalize_token (trim (js ''AB'')) = []"
    by (simp add: token_defs)
  ultimately show ?thesis
    by (simp add: parsePostcodes_def tokens_of_def dedupe_firsts ex_norm2 js_nonempty)
qed

lemma ex_AB_invalid: "\<not> length_valid (js ''AB'')"
  by (simp add: length_valid_def js_def compact_of_ascii char_defs)

theorem parsePostcodes_drops_bad_length_witness:
  "\<not> length_valid (js ''AB'') \<and> normalize_token (js ''AB'') = [] \<and>
   parsePostcodes (js ''AB, sw1a1aa'') = [js ''SW1A 1AA''] \<and>
   length_valid (js ''SW1A 1AA'')"
  using parsePostcodes_drops_bad_length [of "js ''AB''" "js ''AB, sw1a1aa''"] ex_AB_invalid
  by (simp add: ex_mixed)






text \<open>
  C10. Parsing is idempotent on its own output: the codes that \<open>parsePostcodes\<close> returns,
  joined by line feeds and parsed again, give the same list, and each of them is a fixed
  point of trimming and normalization.
\<close>

theorem parsePostcodes_idempotent:
  "parsePostcodes (join [10] (parsePostcodes raw)) = parsePostcodes raw \<and>
   (\<forall>p \<in> set (parsePostcodes raw). normalize_token (trim p) = p) \<and>
   dedupe (parsePostcodes raw) = parsePostcodes raw"
proof (intro conjI ballI)
  show "parsePostcodes (join [10] (parsePostcodes raw)) = parsePostcodes raw"
    by (rule parse_idem)
  show "normalize_token (trim p) = p" if "p \<in> set (parsePostcodes raw)" for p
  proof -
    from that have "p \<in> set (tokens_of raw)"
      by (simp add: parsePostcodes_def dedupe_firsts set_firsts)
    from tokens_of_fixed [OF this] show ?thesis by simp
  qed
  show "dedupe (parsePostcodes raw) = parsePostcodes raw"
    by (simp add: parsePostcodes_def dedupe_firsts firsts_distinct distinct_firsts)
qed

lemma ex_two: "parsePostcodes (js ''m11ae, sw1a1aa, M1 1AE, 12345'')
    = [js ''M1 1AE'', js ''SW1A 1AA'', js ''12345'']"
proof -
  have "split_lines (replace_commas (js ''m11ae, sw1a1aa, M1 1AE, 12345''))
      = [js ''m11ae'', js '' sw1a1aa'', js '' M1 1AE'', js '' 12345'']"
    by (simp add: js_def replace_commas_def)
  moreover have "normalize_token (trim (js ''m11ae'')) = js ''M1 1AE''"
    by (simp add: token_defs)
  moreover have "normalize_token (trim (js '' M1 1AE'')) = js ''M1 1AE''"
    by (simp add: token_defs)
  moreover have "normalize_token (trim (js '' 12345'')) = js ''12345''"
    by (simp add: token_defs)
  ultimately have "tokens_of (js ''m11ae, sw1a1aa, M1 1AE, 12345'')
      = [js ''M1 1AE'', js ''SW1A 1AA'', js ''M1 1AE'', js ''12345'']"
    by (simp add: tokens_of_def ex_norm2 js_nonempty)
  then show ?thesis
    by (simp add: parsePostcodes_def dedupe_firsts) (simp add: js_def)
qed

theorem parsePostcodes_idempotent_witness:
  "parsePostcodes (join [10] [js ''M1 1AE'', js ''SW1A 1AA'', js ''12345''])
     = [js ''M1 1AE'', js ''SW1A 1AA'', js ''12345''] \<and>
   normalize_token (trim (js ''M1 1AE'')) = js ''M1 1AE'' \<and>
   normalize_token (trim (js ''12345'')) = js ''12345''"
  using parsePostcodes_idempotent [of "js ''m11ae, sw1a1aa, M1 1AE, 12345''"]
  by (simp add: ex_two)

section \<open>The exporter and the renderer: proofs\<close>

subsection \<open>join\<close>

lemma join_Cons: "ls \<noteq> [] \<Longrightarrow> join sep (l # ls) = l @ sep @ join sep ls"
  by (cases ls) auto

lemma join_snoc: "xs \<noteq> [] \<Longrightarrow> join sep (xs @ [x]) = join sep xs @ sep @ x"
  by (induction sep xs rule: join.induct) auto

subsection \<open>Values and keys\<close>

lemma js_eq_iff: "js s = js t \<longleftrightarrow> s = t"
proof -
  have "inj (of_char :: char \<Rightarrow> nat)"
    by (rule inj_on_inverseI [of _ char_of]) simp
  then show ?thesis by (simp add: js_def inj_map_eq_map)
qed

lemma get_Cons: "get ((k, v) # r) h = (if h = k then v else get r h)"
  by (simp add: get_def)

lemma get_Nil: "get [] h = inherited h"
  by (simp add: get_def)

lemma get_absent: "map_of r h = None \<Longrightarrow> get r h = inherited h"
  by (simp add: get_def)

lemma inherited_postcode: "inherited (js ''postcode'') = Undefined"
  by (simp add: inherited_def native_names_def js_eq_iff)

lemma inherited_FIELDS: "f \<in> set FIELDS \<Longrightarrow> inherited f = Undefined"
  by (auto simp: FIELDS_def inherited_def native_names_def js_eq_iff)

lemma needs_quotes_iff: "needs_quotes s \<longleftrightarrow> 44 \<in> set s \<or> 34 \<in> set s \<or> 10 \<in> set s"
  by (auto simp: needs_quotes_def list_ex_iff)

lemma number_plain: "number_text t \<Longrightarrow> \<not> needs_quotes t \<and> 13 \<notin> set t \<and> t \<noteq> []"
  by (auto simp: number_text_def needs_quotes_iff list_all_iff is_digit_def)

subsection \<open>The exporter\<close>

lemma fold_push: "fold (\<lambda>r lines. lines @ [g r]) rows acc = acc @ map g rows"
  by (induction rows arbitrary: acc) auto

lemma csv_lines_eq: "csv_lines rows header = join [44] header # map (row_line header) rows"
  by (simp add: csv_lines_def fold_push)

lemma toCSV_Nil: "toCSV [] header = join [44] header"
  by (simp add: toCSV_def csv_lines_eq)

lemma toCSV_snoc: "toCSV (rows @ [r]) header = toCSV rows header @ [10] @ row_line header r"
  using join_snoc [of "join [44] header # map (row_line header) rows" "[10]" "row_line header r"]
  by (simp add: toCSV_def csv_lines_eq)

lemma esc_eq:
  "esc v =
    (if nullish v then []
     else if needs_quotes (toString v) then [34] @ double_quotes (toString v) @ [34]
     else toString v)"
  by (simp add: esc_def Let_def)

lemma esc_Str:
  "esc (Str s) =
    (if 44 \<in> set s \<or> 34 \<in> set s \<or> 10 \<in> set s then [34] @ double_quotes s @ [34] else s)"
  by (simp add: esc_eq nullish_def needs_quotes_iff)

lemma esc_Num: "esc (Num t) = (if needs_quotes t then [34] @ double_quotes t @ [34] else t)"
  by (simp add: esc_eq nullish_def)

lemma esc_nullish: "esc Null = [] \<and> esc Undefined = []"
  by (simp add: esc_def nullish_def)

lemma esc_empty_iff: "esc v = [] \<longleftrightarrow> cell_text v = []"
  by (auto simp: esc_eq cell_text_def needs_quotes_def)

lemma double_quotes_simps:
  "double_quotes [] = []"
  "double_quotes (c # s) = (if c = 34 then [34, 34] else [c]) @ double_quotes s"
  by (simp_all add: double_quotes_def)

subsection \<open>The reader on exported text\<close>

lemma step_comma: "m \<noteq> Quoted \<Longrightarrow> csv_step (m, f, r, rs) 44 = (FieldStart, [], r @ [f], rs)"
  by (simp add: csv_step_def)

lemma step_newline:
  "inside m \<Longrightarrow> csv_step (m, f, r, rs) 10 = (RecordStart, [], [], rs @ [r @ [f]])"
  by (auto simp: csv_step_def inside_def)

lemma run_unquoted:
  assumes "\<not> needs_quotes s" "13 \<notin> set s" "m = RecordStart \<or> m = FieldStart \<or> m = Unquoted"
  shows "foldl csv_step (m, f, r, rs) s = (if s = [] then m else Unquoted, f @ s, r, rs)"
  using assms
proof (induction s arbitrary: m f)
  case Nil
  then show ?case by simp
next
  case (Cons c s)
  from Cons.prems have c: "c \<noteq> 34" "c \<noteq> 44" "c \<noteq> 10" "c \<noteq> 13"
    and s: "\<not> needs_quotes s" "13 \<notin> set s"
    by (auto simp: needs_quotes_def)
  from c Cons.prems(3) have "csv_step (m, f, r, rs) c = (Unquoted, f @ [c], r, rs)"
    by (auto simp: csv_step_def)
  with Cons.IH [OF s, of Unquoted "f @ [c]"] show ?case by simp
qed

lemma run_quoted: "foldl csv_step (Quoted, f, r, rs) (double_quotes s) = (Quoted, f @ s, r, rs)"
proof (induction s arbitrary: f)
  case Nil
  then show ?case by (simp add: double_quotes_def)
next
  case (Cons c s)
  have "foldl csv_step (Quoted, f, r, rs) (if c = 34 then [34, 34] else [c])
      = (Quoted, f @ [c], r, rs)"
    by (simp add: csv_step_def)
  moreover have "double_quotes (c # s) = (if c = 34 then [34, 34] else [c]) @ double_quotes s"
    by (simp add: double_quotes_def)
  ultimately show ?case using Cons.IH [of "f @ [c]"] by (simp del: foldl_Cons)
qed

lemma run_esc:
  assumes "\<not> bare_cr (cell_text v)" "m0 = RecordStart \<or> m0 = FieldStart"
  shows "\<exists>m. foldl csv_step (m0, [], r, rs) (esc v) = (m, cell_text v, r, rs) \<and>
    (if esc v = [] then m = m0 else inside m)"
proof (cases "nullish v")
  case True
  then show ?thesis by (simp add: esc_def cell_text_def)
next
  case False
  show ?thesis
  proof (cases "needs_quotes (toString v)")
    case True
    from assms(2) have "csv_step (m0, [], r, rs) 34 = (Quoted, [], r, rs)"
      by (auto simp: csv_step_def)
    moreover have "csv_step (Quoted, toString v, r, rs) 34 = (QuoteSeen, toString v, r, rs)"
      by (simp add: csv_step_def)
    ultimately have "foldl csv_step (m0, [], r, rs) ([34] @ double_quotes (toString v) @ [34])
        = (QuoteSeen, toString v, r, rs)"
      using run_quoted [of "[]" r rs "toString v"] by simp
    with True False show ?thesis by (simp add: esc_eq cell_text_def inside_def)
  next
    case nq: False
    from assms(1) nq False have cr: "13 \<notin> set (toString v)"
      by (simp add: bare_cr_def cell_text_def)
    from assms(2) have "m0 = RecordStart \<or> m0 = FieldStart \<or> m0 = Unquoted" by blast
    from run_unquoted [OF nq cr this, of "[]" r rs] nq False show ?thesis
      by (simp add: esc_eq cell_text_def inside_def)
  qed
qed

lemma run_cells:
  assumes "vs \<noteq> []" "\<forall>v \<in> set vs. \<not> bare_cr (cell_text v)"
    "m0 = RecordStart \<or> m0 = FieldStart"
  shows "\<exists>m. foldl csv_step (m0, [], r, rs) (join [44] (map esc vs))
      = (m, cell_text (last vs), r @ map cell_text (butlast vs), rs) \<and>
    (inside m \<or> (length vs = 1 \<and> esc (last vs) = []))"
  using assms
proof (induction vs arbitrary: r m0)
  case Nil
  then show ?case by simp
next
  case (Cons v vs)
  from Cons.prems have b: "\<not> bare_cr (cell_text v)" by simp
  from run_esc [OF b Cons.prems(3), of r rs] obtain m where
    m: "foldl csv_step (m0, [], r, rs) (esc v) = (m, cell_text v, r, rs)"
      "if esc v = [] then m = m0 else inside m"
    by blast
  show ?case
  proof (cases "vs = []")
    case True
    with m show ?thesis by (auto split: if_splits)
  next
    case False
    then have j: "join [44] (map esc (v # vs)) = esc v @ [44] @ join [44] (map esc vs)"
      by (simp add: join_Cons)
    from m(2) Cons.prems(3) have nq: "m \<noteq> Quoted"
      by (auto simp: inside_def split: if_splits)
    from Cons.prems have "\<forall>v \<in> set vs. \<not> bare_cr (cell_text v)" by simp
    from Cons.IH [OF False this, of FieldStart "r @ [cell_text v]"] obtain m' where
      m': "foldl csv_step (FieldStart, [], r @ [cell_text v], rs) (join [44] (map esc vs))
          = (m', cell_text (last vs), (r @ [cell_text v]) @ map cell_text (butlast vs), rs)"
        "inside m' \<or> (length vs = 1 \<and> esc (last vs) = [])"
      by blast
    have i: "inside m'"
    proof (cases "esc (last vs) = [] \<and> length vs = 1")
      case True
      then obtain w where w: "vs = [w]" "esc w = []"
        by (cases vs) auto
      from Cons.prems have "\<not> bare_cr (cell_text w)" by (simp add: w)
      from run_esc [OF this, of FieldStart "r @ [cell_text v]" rs] w m'(1)
      show ?thesis by (simp add: inside_def)
    next
      case False
      with m'(2) show ?thesis by blast
    qed
    from m(1) m'(1) nq i False show ?thesis
      unfolding j by (simp add: step_comma)
  qed
qed

lemma step_prefix:
  "csv_step (m, f, r, rs @ rs') c =
    (case csv_step (m, f, r, rs') c of (m1, f1, r1, rs1) \<Rightarrow> (m1, f1, r1, rs @ rs1))"
  by (simp add: csv_step_def)

lemma run_prefix:
  "foldl csv_step (m, f, r, rs @ rs') t =
    (case foldl csv_step (m, f, r, rs') t of (m1, f1, r1, rs1) \<Rightarrow> (m1, f1, r1, rs @ rs1))"
proof (induction t rule: rev_induct)
  case Nil
  then show ?case by simp
next
  case (snoc c t)
  obtain m1 f1 r1 rs1 where 1: "foldl csv_step (m, f, r, rs') t = (m1, f1, r1, rs1)"
    by (cases "foldl csv_step (m, f, r, rs') t") auto
  with snoc show ?case by (simp add: step_prefix)
qed

lemma ends_withD:
  assumes "ends_with l cells"
  shows "\<exists>m f r. inside m \<and> r @ [f] = cells \<and>
    (\<forall>rs. foldl csv_step (RecordStart, [], [], rs) l = (m, f, r, rs))"
proof -
  from assms obtain m f r where 1: "inside m" "r @ [f] = cells"
    "foldl csv_step (RecordStart, [], [], []) l = (m, f, r, [])"
    unfolding ends_with_def by blast
  have "foldl csv_step (RecordStart, [], [], rs) l = (m, f, r, rs)" for rs
    using run_prefix [of RecordStart "[]" "[]" rs "[]" l] 1(3) by simp
  with 1 show ?thesis by blast
qed

lemma ends_with_cells:
  assumes "vs \<noteq> []" "\<forall>v \<in> set vs. \<not> bare_cr (cell_text v)"
    "2 \<le> length vs \<or> cell_text (hd vs) \<noteq> []"
  shows "ends_with (join [44] (map esc vs)) (map cell_text vs)"
proof -
  have c: "map cell_text (butlast vs) @ [cell_text (last vs)] = map cell_text vs"
    using assms(1) map_append [of cell_text "butlast vs" "[last vs]"] by simp
  from run_cells [OF assms(1,2), of RecordStart "[]" "[]"] obtain m where
    m: "foldl csv_step (RecordStart, [], [], []) (join [44] (map esc vs))
        = (m, cell_text (last vs), map cell_text (butlast vs), [])"
      "inside m \<or> (length vs = 1 \<and> esc (last vs) = [])"
    by auto
  have i: "inside m"
  proof (cases "length vs = 1")
    case True
    then obtain w where w: "vs = [w]" by (cases vs) auto
    with assms(3) have "esc (last vs) \<noteq> []" by (simp add: esc_empty_iff)
    with m(2) show ?thesis by blast
  next
    case False
    with m(2) show ?thesis by blast
  qed
  show ?thesis
    unfolding ends_with_def
  proof (intro exI conjI)
    show "inside m" by (rule i)
    show "map cell_text (butlast vs) @ [cell_text (last vs)] = map cell_text vs" by (rule c)
    show "foldl csv_step (RecordStart, [], [], []) (join [44] (map esc vs))
        = (m, cell_text (last vs), map cell_text (butlast vs), [])"
      by (rule m(1))
  qed
qed

lemma ends_with_row_line:
  assumes "header \<noteq> []" "list_all (\<lambda>h. \<not> bare_cr (cell_text (get r h))) header"
    "2 \<le> length header \<or> cell_text (get r (hd header)) \<noteq> []"
  shows "ends_with (row_line header r) (map (\<lambda>h. cell_text (get r h)) header)"
proof -
  let ?vs = "map (get r) header"
  from assms(1) have ne: "?vs \<noteq> []" by simp
  from assms(2) have b: "\<forall>v \<in> set ?vs. \<not> bare_cr (cell_text v)"
    by (auto simp: list_all_iff)
  from assms(1,3) have e: "2 \<le> length ?vs \<or> cell_text (hd ?vs) \<noteq> []"
    by (simp add: hd_map)
  from ends_with_cells [OF ne b e] show ?thesis
    by (simp add: row_line_def comp_def)
qed

lemma ends_with_names:
  assumes "header \<noteq> []" "\<forall>h \<in> set header. \<not> needs_quotes h \<and> 13 \<notin> set h"
    "2 \<le> length header \<or> hd header \<noteq> []"
  shows "ends_with (join [44] header) header"
proof -
  let ?vs = "map Str header"
  from assms(1) have ne: "?vs \<noteq> []" by simp
  from assms(2) have b: "\<forall>v \<in> set ?vs. \<not> bare_cr (cell_text v)"
    by (auto simp: bare_cr_def cell_text_def nullish_def)
  from assms(1,3) have e: "2 \<le> length ?vs \<or> cell_text (hd ?vs) \<noteq> []"
    by (simp add: hd_map cell_text_def nullish_def)
  from assms(2) have "map esc ?vs = header"
    by (induction header) (simp_all add: esc_eq nullish_def)
  moreover have "map cell_text ?vs = header"
    by (induction header) (simp_all add: cell_text_def nullish_def)
  ultimately show ?thesis using ends_with_cells [OF ne b e] by simp
qed

lemma read_lines:
  assumes "list_all2 ends_with ls cs" "ends_with l c"
  shows "\<exists>m f r. inside m \<and> r @ [f] = last (c # cs) \<and>
    foldl csv_step (RecordStart, [], [], rs) (join [10] (l # ls))
      = (m, f, r, rs @ butlast (c # cs))"
  using assms
proof (induction ls cs arbitrary: l c rs rule: list_all2_induct)
  case Nil
  from ends_withD [OF Nil] obtain m f r where "inside m" "r @ [f] = c"
    "\<And>rs. foldl csv_step (RecordStart, [], [], rs) l = (m, f, r, rs)"
    by blast
  then show ?case by simp
next
  case (Cons l' ls c' cs)
  from ends_withD [OF Cons.prems] obtain m f r where 1: "inside m" "r @ [f] = c"
    "\<And>rs. foldl csv_step (RecordStart, [], [], rs) l = (m, f, r, rs)"
    by blast
  from Cons.IH [OF Cons.hyps(1), of "rs @ [c]"] obtain m' f' r' where 2: "inside m'"
      "r' @ [f'] = last (c' # cs)"
      "foldl csv_step (RecordStart, [], [], rs @ [c]) (join [10] (l' # ls))
        = (m', f', r', (rs @ [c]) @ butlast (c' # cs))"
    by blast
  have j: "join [10] (l # l' # ls) = l @ [10] @ join [10] (l' # ls)" by simp
  have "foldl csv_step (RecordStart, [], [], rs) (join [10] (l # l' # ls))
      = foldl csv_step (csv_step (m, f, r, rs) 10) (join [10] (l' # ls))"
    unfolding j by (simp add: 1(3) del: join.simps)
  also have "csv_step (m, f, r, rs) 10 = (RecordStart, [], [], rs @ [c])"
    using 1 by (simp add: step_newline)
  finally have "foldl csv_step (RecordStart, [], [], rs) (join [10] (l # l' # ls))
      = (m', f', r', rs @ butlast (c # c' # cs))"
    using 2(3) by simp
  moreover have "last (c # c' # cs) = last (c' # cs)" by simp
  ultimately show ?case using 2(1,2) by metis
qed

lemma parseCSV_lines:
  assumes "ends_with l c" "list_all2 ends_with ls cs"
  shows "parseCSV (join [10] (l # ls)) = c # cs"
proof -
  from read_lines [OF assms(2,1), of "[]"] obtain m f r where 1: "inside m"
    "r @ [f] = last (c # cs)"
    "foldl csv_step (RecordStart, [], [], []) (join [10] (l # ls)) = (m, f, r, butlast (c # cs))"
    by auto
  from 1(1) have "m \<noteq> RecordStart" "m \<noteq> AfterCR" by (auto simp: inside_def)
  then have "parseCSV (join [10] (l # ls)) = butlast (c # cs) @ [last (c # cs)]"
    unfolding parseCSV_def 1(3) using 1(2) by simp
  also have "\<dots> = c # cs" by (rule append_butlast_last_id) simp
  finally show ?thesis .
qed

lemma run_header:
  assumes "34 \<notin> set t" "10 \<notin> set t" "13 \<notin> set t"
    "fst rd = RecordStart \<or> fst rd = FieldStart \<or> fst rd = Unquoted"
  shows "(if t = [] then fst (foldl csv_step rd t) = fst rd
          else fst (foldl csv_step rd t) = FieldStart \<or> fst (foldl csv_step rd t) = Unquoted) \<and>
    snd (snd (snd (foldl csv_step rd t))) = snd (snd (snd rd))"
  using assms
proof (induction t arbitrary: rd)
  case Nil
  then show ?case by simp
next
  case (Cons c t)
  obtain m f r rs where rd: "rd = (m, f, r, rs)" by (cases rd) auto
  from Cons.prems have c: "c \<noteq> 34" "c \<noteq> 10" "c \<noteq> 13"
    and m: "m = RecordStart \<or> m = FieldStart \<or> m = Unquoted"
    by (auto simp: rd)
  have 1: "(fst (csv_step rd c) = FieldStart \<or> fst (csv_step rd c) = Unquoted) \<and>
      snd (snd (snd (csv_step rd c))) = rs"
    using c m by (auto simp: rd csv_step_def)
  then have 2: "fst (csv_step rd c) = RecordStart \<or> fst (csv_step rd c) = FieldStart \<or>
      fst (csv_step rd c) = Unquoted"
    by blast
  from Cons.prems have t: "34 \<notin> set t" "10 \<notin> set t" "13 \<notin> set t" by simp_all
  from Cons.IH [OF t 2] 1 show ?case by (auto simp: rd split: if_splits)
qed

lemma ends_with_header:
  assumes "34 \<notin> set t" "10 \<notin> set t" "13 \<notin> set t" "t \<noteq> []"
  shows "ends_with t (hd (parseCSV t))"
proof -
  obtain m f r rs where 0: "foldl csv_step (RecordStart, [], [], []) t = (m, f, r, rs)"
    by (cases "foldl csv_step (RecordStart, [], [], []) t") auto
  from run_header [OF assms(1-3), of "(RecordStart, [], [], [])"] 0 assms(4)
  have "m = FieldStart \<or> m = Unquoted" "rs = []" by auto
  with 0 show ?thesis by (auto simp: ends_with_def parseCSV_def inside_def)
qed

lemma set_join_comma: "set (join [44] hs) \<subseteq> insert 44 (\<Union> (set ` set hs))"
  using set_join [of "[44]" hs] by auto

lemma join_nonempty:
  assumes "2 \<le> length hs \<or> (length hs = 1 \<and> hd hs \<noteq> [])"
  shows "join [44] hs \<noteq> []"
proof (cases hs)
  case Nil
  with assms show ?thesis by simp
next
  case (Cons h hs')
  with assms show ?thesis by (cases hs') auto
qed

lemma rows_end:
  assumes "no_empty_line rows header" "no_bare_cr rows header"
  shows "list_all2 ends_with (map (row_line header) rows)
    (map (\<lambda>r. map (\<lambda>h. cell_text (get r h)) header) rows)"
  using assms
proof (induction rows)
  case Nil
  then show ?case by simp
next
  case (Cons r rows)
  from Cons.prems have ne: "header \<noteq> []" by (auto simp: no_empty_line_def)
  from Cons.prems have b: "list_all (\<lambda>h. \<not> bare_cr (cell_text (get r h))) header"
    by (simp add: no_bare_cr_def)
  from Cons.prems have e: "2 \<le> length header \<or> cell_text (get r (hd header)) \<noteq> []"
    by (auto simp: no_empty_line_def)
  from Cons.prems have "no_empty_line rows header" "no_bare_cr rows header"
    by (auto simp: no_empty_line_def no_bare_cr_def)
  with Cons.IH ends_with_row_line [OF ne b e] show ?case by simp
qed

lemma csv_roundtrip:
  assumes "no_empty_line rows header" "no_bare_cr rows header" "list_all clean_name header"
  shows "parseCSV (toCSV rows header)
    = hd (parseCSV (join [44] header)) # map (\<lambda>r. map (\<lambda>h. cell_text (get r h)) header) rows"
proof -
  from assms(3) have "34 \<notin> set (join [44] header)" "10 \<notin> set (join [44] header)"
    "13 \<notin> set (join [44] header)"
    using set_join_comma [of header] by (auto simp: list_all_iff clean_name_def)
  moreover from assms(1) have "join [44] header \<noteq> []"
    by (intro join_nonempty) (auto simp: no_empty_line_def)
  ultimately have "ends_with (join [44] header) (hd (parseCSV (join [44] header)))"
    by (rule ends_with_header)
  from parseCSV_lines [OF this rows_end [OF assms(1,2)]] show ?thesis
    by (simp add: toCSV_def csv_lines_eq)
qed

lemma csv_roundtrip_header:
  assumes "no_empty_line rows header" "no_bare_cr rows header" "list_all clean_name header"
    "list_all (\<lambda>h. 44 \<notin> set h) header"
  shows "parseCSV (toCSV rows header)
    = header # map (\<lambda>r. map (\<lambda>h. cell_text (get r h)) header) rows"
proof -
  from assms(1) have ne: "header \<noteq> []" and e: "2 \<le> length header \<or> hd header \<noteq> []"
    by (auto simp: no_empty_line_def)
  from assms(3,4) have p: "\<forall>h \<in> set header. \<not> needs_quotes h \<and> 13 \<notin> set h"
    by (auto simp: list_all_iff clean_name_def needs_quotes_iff)
  from parseCSV_lines [OF ends_with_names [OF ne p e] rows_end [OF assms(1,2)]] show ?thesis
    by (simp add: toCSV_def csv_lines_eq)
qed

subsection \<open>Worked exports\<close>

lemma ex_csv:
  "toCSV [[(js ''postcode'', Str (js ''AB1 2CD'')), (js ''country'', Str (js ''England, GB''))]]
      [js ''postcode'', js ''country'']
    = js ''postcode,country'' @ [10] @ js ''AB1 2CD,\"England, GB\"''"
proof -
  have "esc (Str (js ''AB1 2CD'')) = js ''AB1 2CD''"
    by (simp add: esc_Str js_def)
  moreover have "esc (Str (js ''England, GB'')) = js ''\"England, GB\"''"
    by (simp add: esc_Str double_quotes_def js_def)
  ultimately show ?thesis
    by (simp add: toCSV_def csv_lines_eq row_line_def get_Cons js_eq_iff) (simp add: js_def)
qed

lemma ex_number_text: "number_text (js ''51.501009'')"
  by (simp add: number_text_def js_def is_digit_def)

lemma ex_csv_number:
  "toCSV [[(js ''postcode'', Str (js ''SW1A 1AA'')), (js ''latitude'', Num (js ''51.501009''))]]
      [js ''postcode'', js ''latitude'']
    = js ''postcode,latitude'' @ [10] @ js ''SW1A 1AA,51.501009''"
proof -
  have "esc (Str (js ''SW1A 1AA'')) = js ''SW1A 1AA''"
    by (simp add: esc_Str js_def)
  moreover have "esc (Num (js ''51.501009'')) = js ''51.501009''"
    using number_plain [OF ex_number_text] by (simp add: esc_Num)
  ultimately show ?thesis
    by (simp add: toCSV_def csv_lines_eq row_line_def get_Cons js_eq_iff) (simp add: js_def)
qed

lemma ex_constructor:
  "esc (get [] (js ''constructor'')) = js ''function Object() { [native code] }''"
  by (simp add: get_Nil inherited_def esc_eq nullish_def) (simp add: js_def needs_quotes_def)

text \<open>
  C2. The lines of the export are the header names joined by commas, as they are, and
  then one line for each row, in order, holding the escaped values of the row in header
  order joined by commas; the text is the lines joined by single line feeds, so that each
  further row adds a line feed and its line and nothing follows the last line. A value
  that is \<open>null\<close> or \<open>undefined\<close> gives the empty string. Any other value gives its text,
  which for a string is the string and for a number the number as \<open>String\<close> prints it:
  wrapped in double quotes, its own double quotes doubled, exactly when the text holds a
  comma, a double quote or a line feed, and as it is otherwise; so the text of a number
  is written as it is. The value of a key is the own property, or the inherited one when
  there is none, and so the empty string comes out for a key that the row neither has
  nor inherits. The example of the specification evaluates as stated.
\<close>

theorem toCSV_format:
  "csv_lines rows header = join [44] header # map (row_line header) rows \<and>
   row_line header r = join [44] (map (\<lambda>h. esc (get r h)) header) \<and>
   toCSV rows header = join [10] (csv_lines rows header) \<and>
   toCSV [] header = join [44] header \<and>
   toCSV (rows @ [r]) header = toCSV rows header @ [10] @ row_line header r \<and>
   esc v =
     (if v = Null \<or> v = Undefined then []
      else if 44 \<in> set (toString v) \<or> 34 \<in> set (toString v) \<or> 10 \<in> set (toString v)
           then [34] @ double_quotes (toString v) @ [34]
      else toString v) \<and>
   toString (Str s) = s \<and> toString (Num t) = t \<and> toString (Other t) = t \<and>
   esc (Str s) =
     (if 44 \<in> set s \<or> 34 \<in> set s \<or> 10 \<in> set s then [34] @ double_quotes s @ [34] else s) \<and>
   (number_text t \<longrightarrow> esc (Num t) = t) \<and>
   double_quotes [] = [] \<and>
   double_quotes (c # s) = (if c = 34 then [34, 34] else [c]) @ double_quotes s \<and>
   esc Null = [] \<and> esc Undefined = [] \<and>
   (map_of r h = Some v \<longrightarrow> get r h = v) \<and>
   (map_of r h = None \<longrightarrow> get r h = inherited h) \<and>
   (map_of r h = None \<and> inherited h = Undefined \<longrightarrow> esc (get r h) = []) \<and>
   toCSV [[(js ''postcode'', Str (js ''AB1 2CD'')), (js ''country'', Str (js ''England, GB''))]]
       [js ''postcode'', js ''country'']
     = js ''postcode,country'' @ [10] @ js ''AB1 2CD,\"England, GB\"'' \<and>
   toCSV [[(js ''postcode'', Str (js ''SW1A 1AA'')), (js ''latitude'', Num (js ''51.501009''))]]
       [js ''postcode'', js ''latitude'']
     = js ''postcode,latitude'' @ [10] @ js ''SW1A 1AA,51.501009''"
proof (intro conjI impI)
  show "csv_lines rows header = join [44] header # map (row_line header) rows"
    by (rule csv_lines_eq)
  show "row_line header r = join [44] (map (\<lambda>h. esc (get r h)) header)"
    by (rule row_line_def)
  show "toCSV rows header = join [10] (csv_lines rows header)"
    by (rule toCSV_def)
  show "toCSV [] header = join [44] header"
    by (rule toCSV_Nil)
  show "toCSV (rows @ [r]) header = toCSV rows header @ [10] @ row_line header r"
    by (rule toCSV_snoc)
  show "esc v =
     (if v = Null \<or> v = Undefined then []
      else if 44 \<in> set (toString v) \<or> 34 \<in> set (toString v) \<or> 10 \<in> set (toString v)
           then [34] @ double_quotes (toString v) @ [34]
      else toString v)"
    by (simp add: esc_eq nullish_def needs_quotes_iff)
  show "esc (Str s) =
     (if 44 \<in> set s \<or> 34 \<in> set s \<or> 10 \<in> set s then [34] @ double_quotes s @ [34] else s)"
    by (rule esc_Str)
  show "esc (Num t) = t" if "number_text t"
    using number_plain [OF that] by (simp add: esc_Num)
  show "double_quotes [] = []"
    "double_quotes (c # s) = (if c = 34 then [34, 34] else [c]) @ double_quotes s"
    by (rule double_quotes_simps)+
  show "esc Null = []" "esc Undefined = []"
    by (simp_all add: esc_nullish)
  show "get r h = v" if "map_of r h = Some v"
    using that by (simp add: get_def)
  show "get r h = inherited h" if "map_of r h = None"
    using that by (rule get_absent)
  show "esc (get r h) = []" if "map_of r h = None \<and> inherited h = Undefined"
    using that by (simp add: get_absent esc_nullish)
  show "toCSV [[(js ''postcode'', Str (js ''AB1 2CD'')), (js ''country'', Str (js ''England, GB''))]]
       [js ''postcode'', js ''country'']
     = js ''postcode,country'' @ [10] @ js ''AB1 2CD,\"England, GB\"''"
    by (rule ex_csv)
  show "toCSV [[(js ''postcode'', Str (js ''SW1A 1AA'')), (js ''latitude'', Num (js ''51.501009''))]]
       [js ''postcode'', js ''latitude'']
     = js ''postcode,latitude'' @ [10] @ js ''SW1A 1AA,51.501009''"
    by (rule ex_csv_number)
qed simp_all

theorem toCSV_format_witness:
  "number_text (js ''51.501009'') \<and> esc (Num (js ''51.501009'')) = js ''51.501009'' \<and>
   get [(js ''latitude'', Num (js ''51.501009''))] (js ''latitude'') = Num (js ''51.501009'') \<and>
   esc (get [(js ''latitude'', Num (js ''51.501009''))] (js ''longitude'')) = [] \<and>
   esc (get [] (js ''constructor'')) = js ''function Object() { [native code] }''"
proof -
  note t = toCSV_format [where t = "js ''51.501009''"
      and r = "[(js ''latitude'', Num (js ''51.501009''))]"]
  have n: "esc (Num (js ''51.501009'')) = js ''51.501009''"
    using t ex_number_text by blast
  have s: "map_of [(js ''latitude'', Num (js ''51.501009''))] (js ''latitude'')
      = Some (Num (js ''51.501009''))"
    by simp
  have g: "get [(js ''latitude'', Num (js ''51.501009''))] (js ''latitude'')
      = Num (js ''51.501009'')"
    using t [where h = "js ''latitude''" and v = "Num (js ''51.501009'')"] s by blast
  have a: "map_of [(js ''latitude'', Num (js ''51.501009''))] (js ''longitude'') = None \<and>
      inherited (js ''longitude'') = Undefined"
    by (simp add: js_eq_iff inherited_FIELDS FIELDS_def)
  have e: "esc (get [(js ''latitude'', Num (js ''51.501009''))] (js ''longitude'')) = []"
    using t [where h = "js ''longitude''"] a by blast
  from n g e ex_number_text ex_constructor show ?thesis by (intro conjI)
qed

subsection \<open>Worked round trips\<close>

lemma ex_roundtrip_rows:
  "map (\<lambda>r. map (\<lambda>h. cell_text (get r h)) [js ''postcode'', js ''country''])
      [[(js ''postcode'', Str (js ''AB1 \"2CD'')), (js ''country'', Str (js ''England, GB''))],
       [(js ''postcode'', Null), (js ''country'', Str (js ''a'' @ [13, 10] @ js ''b''))]]
    = [[js ''AB1 \"2CD'', js ''England, GB''], [[], js ''a'' @ [13, 10] @ js ''b'']]"
  by (simp add: get_Cons js_eq_iff cell_text_def nullish_def)

lemma ex_roundtrip_hyps:
  "no_empty_line
      [[(js ''postcode'', Str (js ''AB1 \"2CD'')), (js ''country'', Str (js ''England, GB''))],
       [(js ''postcode'', Null), (js ''country'', Str (js ''a'' @ [13, 10] @ js ''b''))]]
      [js ''postcode'', js ''country'']"
  "no_bare_cr
      [[(js ''postcode'', Str (js ''AB1 \"2CD'')), (js ''country'', Str (js ''England, GB''))],
       [(js ''postcode'', Null), (js ''country'', Str (js ''a'' @ [13, 10] @ js ''b''))]]
      [js ''postcode'', js ''country'']"
  "list_all clean_name [js ''postcode'', js ''country'']"
  "list_all (\<lambda>h. 44 \<notin> set h) [js ''postcode'', js ''country'']"
  by (simp_all add: no_empty_line_def no_bare_cr_def clean_name_def bare_cr_def get_Cons
      js_eq_iff cell_text_def nullish_def needs_quotes_def)
    (simp_all add: js_def)

text \<open>
  C1, as the program has it. Let no line of the export be empty, no value text have a
  bare carriage return, and every header name be clean (the exporter writes the names
  unescaped). Then the reader gives the row values back: the records after the first
  are, row by row and in header order, the texts of the values. The text of a string is
  the string itself, whatever commas, double quotes and line feeds it holds; the text
  of \<open>null\<close>, of \<open>undefined\<close> and of a key that the row neither has nor inherits is the
  empty string, and the text of a number is the number as \<open>String\<close> prints it. If no
  header name holds a comma either, the first record is the header.
\<close>

theorem toCSV_roundtrip:
  assumes "no_empty_line rows header" "no_bare_cr rows header" "list_all clean_name header"
  shows "tl (parseCSV (toCSV rows header))
      = map (\<lambda>r. map (\<lambda>h. cell_text (get r h)) header) rows \<and>
    (list_all (\<lambda>h. 44 \<notin> set h) header \<longrightarrow> hd (parseCSV (toCSV rows header)) = header) \<and>
    cell_text (Str s) = s \<and> cell_text Null = [] \<and> cell_text Undefined = [] \<and>
    cell_text (Num t) = t \<and>
    (map_of r h = None \<and> inherited h = Undefined \<longrightarrow> cell_text (get r h) = [])"
proof (intro conjI impI)
  show "tl (parseCSV (toCSV rows header))
      = map (\<lambda>r. map (\<lambda>h. cell_text (get r h)) header) rows"
    by (simp add: csv_roundtrip [OF assms])
  show "hd (parseCSV (toCSV rows header)) = header" if "list_all (\<lambda>h. 44 \<notin> set h) header"
    by (simp add: csv_roundtrip_header [OF assms that])
  show "cell_text (get r h) = []" if "map_of r h = None \<and> inherited h = Undefined"
    using that by (simp add: get_absent cell_text_def nullish_def)
qed (simp_all add: cell_text_def nullish_def)

theorem toCSV_roundtrip_witness:
  "tl (parseCSV (toCSV
      [[(js ''postcode'', Str (js ''AB1 \"2CD'')), (js ''country'', Str (js ''England, GB''))],
       [(js ''postcode'', Null), (js ''country'', Str (js ''a'' @ [13, 10] @ js ''b''))]]
      [js ''postcode'', js ''country'']))
     = [[js ''AB1 \"2CD'', js ''England, GB''], [[], js ''a'' @ [13, 10] @ js ''b'']] \<and>
   hd (parseCSV (toCSV
      [[(js ''postcode'', Str (js ''AB1 \"2CD'')), (js ''country'', Str (js ''England, GB''))],
       [(js ''postcode'', Null), (js ''country'', Str (js ''a'' @ [13, 10] @ js ''b''))]]
      [js ''postcode'', js ''country'']))
     = [js ''postcode'', js ''country'']"
proof -
  note t = toCSV_roundtrip [OF ex_roundtrip_hyps(1,2,3)]
  from t have "tl (parseCSV (toCSV
      [[(js ''postcode'', Str (js ''AB1 \"2CD'')), (js ''country'', Str (js ''England, GB''))],
       [(js ''postcode'', Null), (js ''country'', Str (js ''a'' @ [13, 10] @ js ''b''))]]
      [js ''postcode'', js ''country'']))
     = map (\<lambda>r. map (\<lambda>h. cell_text (get r h)) [js ''postcode'', js ''country''])
      [[(js ''postcode'', Str (js ''AB1 \"2CD'')), (js ''country'', Str (js ''England, GB''))],
       [(js ''postcode'', Null), (js ''country'', Str (js ''a'' @ [13, 10] @ js ''b''))]]"
    by (rule conjunct1)
  then have 1: "tl (parseCSV (toCSV
      [[(js ''postcode'', Str (js ''AB1 \"2CD'')), (js ''country'', Str (js ''England, GB''))],
       [(js ''postcode'', Null), (js ''country'', Str (js ''a'' @ [13, 10] @ js ''b''))]]
      [js ''postcode'', js ''country'']))
     = [[js ''AB1 \"2CD'', js ''England, GB''], [[], js ''a'' @ [13, 10] @ js ''b'']]"
    by (simp only: ex_roundtrip_rows)
  from t ex_roundtrip_hyps(4) have 2: "hd (parseCSV (toCSV
      [[(js ''postcode'', Str (js ''AB1 \"2CD'')), (js ''country'', Str (js ''England, GB''))],
       [(js ''postcode'', Null), (js ''country'', Str (js ''a'' @ [13, 10] @ js ''b''))]]
      [js ''postcode'', js ''country'']))
     = [js ''postcode'', js ''country'']"
    by blast
  from 1 2 show ?thesis by (rule conjI)
qed

lemma ex_broken_header:
  "parseCSV (toCSV [[(js ''a'' @ [10] @ js ''b'', Str (js ''x''))]] [js ''a'' @ [10] @ js ''b''])
    = [[js ''a''], [js ''b''], [js ''x'']]"
  by (simp add: toCSV_def csv_lines_eq row_line_def get_Cons esc_Str js_def parseCSV_def
      csv_step_def)

lemma ex_lost_row: "parseCSV (toCSV [[(js ''a'', Null)]] [js ''a'']) = [[js ''a'']]"
  by (simp add: toCSV_def csv_lines_eq row_line_def get_Cons esc_nullish js_def parseCSV_def
      csv_step_def)

lemma ex_bare_cr:
  "parseCSV (toCSV [[(js ''a'', Str (js ''x'' @ [13] @ js ''y''))]] [js ''a''])
    = [[js ''a''], [js ''x''], [js ''y'']]"
  by (simp add: toCSV_def csv_lines_eq row_line_def get_Cons esc_Str js_def parseCSV_def
      csv_step_def)

theorem toCSV_roundtrip_counterexample:
  "parseCSV (toCSV [[(js ''a'' @ [10] @ js ''b'', Str (js ''x''))]] [js ''a'' @ [10] @ js ''b''])
     = [[js ''a''], [js ''b''], [js ''x'']] \<and>
   tl (parseCSV (toCSV [[(js ''a'' @ [10] @ js ''b'', Str (js ''x''))]] [js ''a'' @ [10] @ js ''b'']))
     \<noteq> [[js ''x'']] \<and>
   tl (parseCSV (toCSV [[(js ''a'', Null)]] [js ''a''])) = [] \<and>
   tl (parseCSV (toCSV [[(js ''a'', Str (js ''x'' @ [13] @ js ''y''))]] [js ''a'']))
     = [[js ''x''], [js ''y'']]"
  unfolding ex_broken_header ex_lost_row ex_bare_cr by (simp add: js_def)

subsection \<open>The table\<close>

lemma ex_cells:
  "map (\<lambda>h. cell_text
        (get [(js ''postcode'', Str (js ''SW1A 1AA'')), (js ''latitude'', Num (js ''51.501009''))] h))
      [js ''postcode'', js ''latitude'']
    = [js ''SW1A 1AA'', js ''51.501009'']"
  by (simp add: get_Cons js_eq_iff cell_text_def nullish_def)

lemma ex_line:
  "row_line [js ''postcode'', js ''latitude'']
      [(js ''postcode'', Str (js ''SW1A 1AA'')), (js ''latitude'', Num (js ''51.501009''))]
    = js ''SW1A 1AA,51.501009''"
proof -
  have "esc (Str (js ''SW1A 1AA'')) = js ''SW1A 1AA''"
    by (simp add: esc_Str js_def)
  moreover have "esc (Num (js ''51.501009'')) = js ''51.501009''"
    using number_plain [OF ex_number_text] by (simp add: esc_Num)
  ultimately show ?thesis
    by (simp add: row_line_def get_Cons js_eq_iff) (simp add: js_def)
qed

text \<open>
  C8. For a list of rows that is not empty the renderer shows the results, puts the
  header in the head of the table and fills its body with the first 500 rows at most,
  one table row for each in order. A cell holds the text of the value, the string itself
  or the number as printed, and nothing for \<open>null\<close>, \<open>undefined\<close> or a key that the row
  neither has nor inherits. For the empty list the renderer only hides the results. The
  exporter has no cap: its lines are the header line and one line for every row, made of
  the escaped values of that row.
\<close>

theorem renderTable_cap_toCSV_all:
  "(rows = [] \<longrightarrow> renderTable rows header st = st\<lparr>results_display := js ''none''\<rparr>) \<and>
   (rows \<noteq> [] \<longrightarrow>
      results_display (renderTable rows header st) = js ''block'' \<and>
      table_head (renderTable rows header st) = [header] \<and>
      table_body (renderTable rows header st)
        = map (\<lambda>r. map (\<lambda>h. cell_text (get r h)) header) (take 500 rows) \<and>
      length (table_body (renderTable rows header st)) = min 500 (length rows)) \<and>
   cell_text (Str s) = s \<and> cell_text (Num t) = t \<and> cell_text (Other t) = t \<and>
   cell_text Undefined = [] \<and> cell_text Null = [] \<and>
   (map_of r h = Some v \<longrightarrow> get r h = v) \<and>
   (map_of r h = None \<longrightarrow> get r h = inherited h) \<and>
   (map_of r h = None \<and> inherited h = Undefined \<longrightarrow> cell_text (get r h) = []) \<and>
   toCSV rows header = join [10] (csv_lines rows header) \<and>
   length (csv_lines rows header) = Suc (length rows) \<and>
   (\<forall>i < length rows. csv_lines rows header ! Suc i = row_line header (rows ! i)) \<and>
   row_line header r = join [44] (map (\<lambda>h. esc (get r h)) header) \<and>
   esc v =
     (if v = Null \<or> v = Undefined then []
      else if 44 \<in> set (toString v) \<or> 34 \<in> set (toString v) \<or> 10 \<in> set (toString v)
           then [34] @ double_quotes (toString v) @ [34]
      else toString v) \<and>
   toString (Str s) = s \<and> toString (Num t) = t"
proof (intro conjI impI allI)
  show "get r h = v" if "map_of r h = Some v"
    using that by (simp add: get_def)
  show "get r h = inherited h" if "map_of r h = None"
    using that by (rule get_absent)
  show "cell_text (get r h) = []" if "map_of r h = None \<and> inherited h = Undefined"
    using that by (simp add: get_absent cell_text_def nullish_def)
  show "toCSV rows header = join [10] (csv_lines rows header)"
    by (rule toCSV_def)
  show "row_line header r = join [44] (map (\<lambda>h. esc (get r h)) header)"
    by (rule row_line_def)
  show "esc v =
     (if v = Null \<or> v = Undefined then []
      else if 44 \<in> set (toString v) \<or> 34 \<in> set (toString v) \<or> 10 \<in> set (toString v)
           then [34] @ double_quotes (toString v) @ [34]
      else toString v)"
    by (simp add: esc_eq nullish_def needs_quotes_iff)
qed (simp_all add: renderTable_def cell_text_def nullish_def csv_lines_eq min_def)

theorem renderTable_cap_toCSV_all_witness:
  "length (table_body (renderTable
      (replicate 501
        [(js ''postcode'', Str (js ''SW1A 1AA'')), (js ''latitude'', Num (js ''51.501009''))])
      [js ''postcode'', js ''latitude''] page0)) = 500 \<and>
   set (table_body (renderTable
      (replicate 501
        [(js ''postcode'', Str (js ''SW1A 1AA'')), (js ''latitude'', Num (js ''51.501009''))])
      [js ''postcode'', js ''latitude''] page0)) = {[js ''SW1A 1AA'', js ''51.501009'']} \<and>
   length (csv_lines
      (replicate 501
        [(js ''postcode'', Str (js ''SW1A 1AA'')), (js ''latitude'', Num (js ''51.501009''))])
      [js ''postcode'', js ''latitude'']) = 502 \<and>
   csv_lines
      (replicate 501
        [(js ''postcode'', Str (js ''SW1A 1AA'')), (js ''latitude'', Num (js ''51.501009''))])
      [js ''postcode'', js ''latitude''] ! 501 = js ''SW1A 1AA,51.501009'' \<and>
   renderTable [] [js ''postcode'', js ''latitude''] page0 = page0\<lparr>results_display := js ''none''\<rparr>"
proof -
  let ?r = "[(js ''postcode'', Str (js ''SW1A 1AA'')), (js ''latitude'', Num (js ''51.501009''))]"
  let ?h = "[js ''postcode'', js ''latitude'']"
  note t = renderTable_cap_toCSV_all [where rows = "replicate 501 ?r" and header = ?h
      and st = page0]
  note e = renderTable_cap_toCSV_all [where rows = "[]" and header = ?h and st = page0]
  have ne: "replicate 501 ?r \<noteq> []" by simp
  from t ne have b: "table_body (renderTable (replicate 501 ?r) ?h page0)
      = map (\<lambda>r. map (\<lambda>h. cell_text (get r h)) ?h) (take 500 (replicate 501 ?r))"
    by blast
  from t have l: "length (csv_lines (replicate 501 ?r) ?h) = Suc (length (replicate 501 ?r))"
    by blast
  from t have "\<forall>i < length (replicate 501 ?r).
      csv_lines (replicate 501 ?r) ?h ! Suc i = row_line ?h (replicate 501 ?r ! i)"
    by blast
  from this [rule_format, of 500]
  have "csv_lines (replicate 501 ?r) ?h ! Suc 500 = row_line ?h (replicate 501 ?r ! 500)"
    by simp
  then have n: "csv_lines (replicate 501 ?r) ?h ! 501 = js ''SW1A 1AA,51.501009''"
    by (simp add: ex_line)
  from e have z: "renderTable [] ?h page0 = page0\<lparr>results_display := js ''none''\<rparr>"
    by blast
  have c: "map (\<lambda>r. map (\<lambda>h. cell_text (get r h)) ?h) (take 500 (replicate 501 ?r))
      = replicate 500 [js ''SW1A 1AA'', js ''51.501009'']"
    using ex_cells by (simp add: map_replicate)
  from b c have 1: "length (table_body (renderTable (replicate 501 ?r) ?h page0)) = 500"
    and 2: "set (table_body (renderTable (replicate 501 ?r) ?h page0))
      = {[js ''SW1A 1AA'', js ''51.501009'']}"
    by simp_all
  from l have 3: "length (csv_lines (replicate 501 ?r) ?h) = 502" by simp
  from 1 2 3 n z show ?thesis by (intro conjI)
qed

section \<open>The enricher and the controller: proofs\<close>

subsection \<open>One chunk\<close>

lemma requests_of_append: "requests_of (xs @ ys) = requests_of xs @ requests_of ys"
  by (induction xs rule: requests_of.induct) simp_all

lemma sleeps_of_append: "sleeps_of (xs @ ys) = sleeps_of xs @ sleeps_of ys"
  by (induction xs rule: sleeps_of.induct) simp_all

lemma calls_append:
  "calls (st\<lparr>trace := trace st @ es\<rparr>) = calls st + length (requests_of es)"
  by (simp add: calls_def requests_of_append)

lemma calls_status: "calls (st\<lparr>status := s\<rparr>) = calls st"
  by (simp add: calls_def)

lemma attempt_events_simps:
  "attempt_events c 0 = [Request c]"
  "attempt_events c (Suc 0) = [Request c, Sleep 750, Request c]"
  "attempt_events c 2 = [Request c, Sleep 750, Request c, Sleep 1500, Request c]"
  "attempt_events c 3 = [Request c, Sleep 750, Request c, Sleep 1500, Request c, Sleep 2250]"
  "attempt_events c (Suc (Suc 0)) = [Request c, Sleep 750, Request c, Sleep 1500, Request c]"
  "attempt_events c (Suc (Suc (Suc 0)))
    = [Request c, Sleep 750, Request c, Sleep 1500, Request c, Sleep 2250]"
  by (simp_all add: attempt_events_def upt_rec)


lemma fails_before_values:
  "fails_before srv c n = 0 \<or> fails_before srv c n = Suc 0 \<or> fails_before srv c n = 2 \<or>
   fails_before srv c n = 3"
  by (simp add: fails_before_def)

lemma requests_of_attempt_events:
  "f \<le> 3 \<Longrightarrow> length (requests_of (attempt_events c f)) = min 3 (Suc f)"
proof -
  assume "f \<le> 3"
  then consider "f = 0" | "f = Suc 0" | "f = 2" | "f = 3" by linarith
  then show ?thesis by cases (simp_all add: attempt_events_simps)
qed

lemma fetchBatch_simps:
  "fst (fetchBatch srv c st) = outcome (srv (calls st) c)"
  "snd (fetchBatch srv c st) = st\<lparr>trace := trace st @ [Request c]\<rparr>"
  by (simp_all add: fetchBatch_def)

lemma attempts_3: "attempts srv c (Suc (Suc (Suc 0))) st = (None, st)"
  by (simp add: attempts.simps)

lemma attempts_step:
  assumes "a < 3"
  shows "attempts srv c a st =
    (case outcome (srv (calls st) c) of
       Some res \<Rightarrow> (Some res, st\<lparr>trace := trace st @ [Request c]\<rparr>)
     | None \<Rightarrow>
         attempts srv c (a + 1)
           (sleep (750 * (a + 1)) (st\<lparr>trace := trace st @ [Request c], status := retry_msg a\<rparr>)))"
  using assms
  by (subst attempts.simps) (simp add: fetchBatch_def split: option.splits)

lemma attempts_char:
  "attempts srv c 0 st =
    (let n = calls st; f = fails_before srv c n in
     (if f = 3 then None else outcome (srv (n + f) c),
      st\<lparr>trace := trace st @ attempt_events c f,
         status := (if f = 0 then status st else retry_msg (f - 1))\<rparr>))"
proof -
  let ?n = "calls st"
  consider (a) "outcome (srv ?n c) \<noteq> None"
    | (b) "outcome (srv ?n c) = None" "outcome (srv (?n + 1) c) \<noteq> None"
    | (c) "outcome (srv ?n c) = None" "outcome (srv (?n + 1) c) = None"
        "outcome (srv (?n + 2) c) \<noteq> None"
    | (d) "outcome (srv ?n c) = None" "outcome (srv (?n + 1) c) = None"
        "outcome (srv (?n + 2) c) = None"
    by blast
  then show ?thesis
  proof cases
    case a
    then show ?thesis
      by (auto simp: attempts_step [of 0] fails_before_def Let_def attempt_events_simps)
  next
    case b
    then show ?thesis
      by (auto simp: attempts_step [of 0] attempts_step [of "Suc 0"] fails_before_def Let_def
          sleep_def attempt_events_simps calls_def requests_of_append)
  next
    case c
    then show ?thesis
      by (auto simp: attempts_step [of 0] attempts_step [of "Suc 0"] attempts_step [of "Suc (Suc 0)"]
          fails_before_def Let_def sleep_def attempt_events_simps calls_def requests_of_append
          numeral_2_eq_2)
  next
    case d
    then show ?thesis
      by (auto simp: attempts_step [of 0] attempts_step [of "Suc 0"] attempts_step [of "Suc (Suc 0)"]
          attempts_3 fails_before_def Let_def sleep_def attempt_events_simps calls_def
          requests_of_append numeral_2_eq_2 numeral_3_eq_3)
  qed
qed

subsection \<open>The chunks\<close>

lemma fails_before_cases:
  "fails_before srv c n = 3 \<or>
   (fails_before srv c n < 3 \<and> outcome (srv (n + fails_before srv c n) c) \<noteq> None)"
  by (auto simp: fails_before_def)

lemma chunks_of_Nil: "chunks_of [] = []"
  by (simp add: chunks_of.simps)

lemma chunks_of_drop:
  "i < length xs \<Longrightarrow>
    chunks_of (drop i xs) = take MAX_BATCH (drop i xs) # chunks_of (drop (i + MAX_BATCH) xs)"
  by (subst chunks_of.simps) (simp add: add.commute)

lemma chunks_loop_done: "\<not> i < length pcs \<Longrightarrow> chunks_loop srv pcs i rows st = (Inr rows, st)"
  by (subst chunks_loop.simps) simp

lemma chunks_loop_step:
  assumes "i < length pcs"
  shows "chunks_loop srv pcs i rows st =
    (let c = take MAX_BATCH (drop i pcs);
         n = calls st;
         f = fails_before srv c n;
         st2 = st\<lparr>trace := trace st @ attempt_events c f,
                 status := (if f = 0 then fetching_msg i (length pcs) else retry_msg (f - 1))\<rparr>
     in if f = 3 then (Inl (Error (js ''Failed to fetch after retries'')), st2)
        else (case outcome (srv (n + f) c) of
                None \<Rightarrow> (Inl (Error (js ''Failed to fetch after retries'')), st2)
              | Some res \<Rightarrow>
                  chunks_loop srv pcs (i + MAX_BATCH) (rows @ map row_of_item res) (sleep 80 st2)))"
  using assms
  by (subst chunks_loop.simps) (simp add: attempts_char calls_status Let_def split: option.splits)

lemma chunks_loop_char:
  "fst (chunks_loop srv pcs i rows st) =
    (case fetched srv (chunks_of (drop i pcs)) (calls st) of
       None \<Rightarrow> Inl (Error (js ''Failed to fetch after retries''))
     | Some iss \<Rightarrow> Inr (rows @ map row_of_item (concat iss))) \<and>
   untouched st (snd (chunks_loop srv pcs i rows st))"
proof (induction "length pcs - i" arbitrary: i rows st rule: less_induct)
  case less
  show ?case
  proof (cases "i < length pcs")
    case False
    then show ?thesis
      by (simp add: chunks_loop_done chunks_of_Nil untouched_def)
  next
    case True
    let ?c = "take MAX_BATCH (drop i pcs)"
    let ?n = "calls st"
    let ?f = "fails_before srv ?c ?n"
    let ?st2 = "st\<lparr>trace := trace st @ attempt_events ?c ?f,
                 status := (if ?f = 0 then fetching_msg i (length pcs) else retry_msg (?f - 1))\<rparr>"
    from fails_before_cases [of srv ?c ?n] show ?thesis
    proof
      assume f: "?f = 3"
      with True show ?thesis
        by (simp add: chunks_loop_step chunks_of_drop Let_def untouched_def)
    next
      assume "?f < 3 \<and> outcome (srv (?n + ?f) ?c) \<noteq> None"
      then obtain res where f: "?f < 3" "?f \<noteq> 3" and res: "outcome (srv (?n + ?f) ?c) = Some res"
        by auto
      from True have "length pcs - (i + MAX_BATCH) < length pcs - i"
        by (simp add: MAX_BATCH_def)
      note IH = less [OF this, of "rows @ map row_of_item res" "sleep 80 ?st2"]
      have n': "calls (sleep 80 ?st2) = ?n + ?f + 1"
        using f requests_of_attempt_events [of ?f ?c]
        by (simp add: sleep_def calls_def requests_of_append)
      have step: "chunks_loop srv pcs i rows st
          = chunks_loop srv pcs (i + MAX_BATCH) (rows @ map row_of_item res) (sleep 80 ?st2)"
        using f(2) res by (simp add: chunks_loop_step [OF True] Let_def)
      have u: "untouched st (sleep 80 ?st2)" by (simp add: untouched_def sleep_def)
      from IH u show ?thesis
        unfolding step n'
        by (auto simp: chunks_of_drop [OF True] Let_def f(2) res untouched_def
            split: option.splits)
    qed
  qed
qed

lemma enrich_char:
  "fst (enrich srv pcs st) =
    (case fetched srv (chunks_of pcs) (calls st) of
       None \<Rightarrow> Inl (Error (js ''Failed to fetch after retries''))
     | Some iss \<Rightarrow> Inr (map row_of_item (concat iss))) \<and>
   untouched st (snd (enrich srv pcs st))"
proof -
  obtain res st' where l: "chunks_loop srv pcs 0 [] st = (res, st')"
    by (cases "chunks_loop srv pcs 0 [] st") auto
  from chunks_loop_char [of srv pcs 0 "[]" st] l show ?thesis
    by (cases res) (auto simp: enrich_def untouched_def split: option.splits)
qed

subsection \<open>Rows\<close>

lemma get_assign: "get (assign k v r) h = (if h = k then v else get r h)"
  by (induction r) (auto simp: get_def)

lemma keys_assign:
  "map fst (assign k v r) = (if k \<in> fst ` set r then map fst r else map fst r @ [k])"
  by (induction r) auto

lemma get_fold_assign:
  "get (fold (\<lambda>f row. assign f (g f) row) fs r0) k = (if k \<in> set fs then g k else get r0 k)"
  by (induction fs arbitrary: r0) (auto simp: get_assign)

lemma keys_fold_assign:
  "distinct fs \<Longrightarrow> set fs \<inter> fst ` set r0 = {} \<Longrightarrow>
    map fst (fold (\<lambda>f row. assign f (g f) row) fs r0) = map fst r0 @ fs"
proof (induction fs arbitrary: r0)
  case Nil
  then show ?case by simp
next
  case (Cons f fs)
  from Cons.prems have k: "map fst (assign f (g f) r0) = map fst r0 @ [f]"
    by (auto simp: keys_assign)
  then have "fst ` set (assign f (g f) r0) = insert f (fst ` set r0)"
    by (metis Un_insert_right append_Nil2 list.set(2) list.set_map set_append)
  with Cons.prems have "set fs \<inter> fst ` set (assign f (g f) r0) = {}" by auto
  with Cons.IH [of "assign f (g f) r0"] Cons.prems k show ?case by simp
qed

lemma header_distinct: "distinct (js ''postcode'' # FIELDS)"
  by (simp add: FIELDS_def js_eq_iff)

lemma length_FIELDS: "length FIELDS = 12"
  by (simp add: FIELDS_def)

lemma keys_row_of_item: "map fst (row_of_item it) = js ''postcode'' # FIELDS"
  using header_distinct
  by (simp add: row_of_item_def Let_def keys_fold_assign)

lemma field_row_of_item: "f \<in> set FIELDS \<Longrightarrow> get (row_of_item it) f = field_value (result it) f"
  by (simp add: row_of_item_def Let_def get_fold_assign)

lemma postcode_row_of_item:
  "get (row_of_item it) (js ''postcode'') =
    Str (toUpperCase
      (case or_else (or_else (case result it of None \<Rightarrow> None | Some m \<Rightarrow> postcode m) (query it))
              (Some []) of
         Some s \<Rightarrow> s | None \<Rightarrow> []))"
  using header_distinct
  by (simp add: row_of_item_def Let_def get_fold_assign get_Cons)

lemma field_value_cases:
  "field_value None f = Str []"
  "nullish (get (props m) f) \<Longrightarrow> field_value (Some m) f = Str []"
  "\<not> nullish (get (props m) f) \<Longrightarrow> field_value (Some m) f = get (props m) f"
  by (simp_all add: field_value_def nullish_def)

lemma field_value_not_nullish: "\<not> nullish (field_value res f)"
  by (cases res) (auto simp: field_value_def nullish_def Let_def)

lemma chunks_of_short: "xs \<noteq> [] \<Longrightarrow> length xs \<le> MAX_BATCH \<Longrightarrow> chunks_of xs = [xs]"
  by (subst chunks_of.simps) (simp add: chunks_of_Nil)




lemma outcome_simps:
  "outcome Rejected = None"
  "outcome (Response False res) = None"
  "outcome (Response True None) = Some []"
  "outcome (Response True (Some items)) = Some items"
  by (simp_all add: outcome_def)





lemma page0_simps: "calls page0 = 0" "trace page0 = []" "table_body page0 = []"
  by (simp_all add: page0_def calls_def)


text \<open>
  C7. When every chunk is fetched, \<open>enrich\<close> returns one row for each item of each result
  array, in order: none is dropped. At any point of the chunk loop a fetched chunk adds
  the rows of its items to the rows gathered so far. The postcode of a row is the
  upper-cased postcode of the match, or the upper-cased query when there is no match or
  the match has no postcode; upper-casing changes the letters a to z into A to Z and
  leaves the other characters below 128 alone. Each of the 12 fields is the value the
  match has for it, and the empty string when there is no match or the value is absent
  or \<open>null\<close>.
\<close>

theorem enrich_rows:
  "(fetched srv (chunks_of pcs) (calls st) = Some iss \<longrightarrow>
      fst (enrich srv pcs st) = Inr (map row_of_item (concat iss)) \<and>
      length (map row_of_item (concat iss)) = length (concat iss)) \<and>
   (i < length pcs \<and>
    attempts srv (take MAX_BATCH (drop i pcs)) 0 (st\<lparr>status := fetching_msg i (length pcs)\<rparr>)
      = (Some res, st2) \<longrightarrow>
      chunks_loop srv pcs i rows st
        = chunks_loop srv pcs (i + MAX_BATCH) (rows @ map row_of_item res) (sleep 80 st2)) \<and>
   (result it = Some m \<and> postcode m = Some p \<and> p \<noteq> [] \<longrightarrow>
      get (row_of_item it) (js ''postcode'') = Str (toUpperCase p)) \<and>
   (result it = None \<and> query it = Some q \<longrightarrow>
      get (row_of_item it) (js ''postcode'') = Str (toUpperCase q)) \<and>
   (result it = Some m \<and> (postcode m = None \<or> postcode m = Some []) \<and> query it = Some q \<longrightarrow>
      get (row_of_item it) (js ''postcode'') = Str (toUpperCase q)) \<and>
   (list_all (\<lambda>c. c < 128) s \<longrightarrow>
      toUpperCase s = map (\<lambda>c. if 97 \<le> c \<and> c \<le> 122 then c - 32 else c) s) \<and>
   (\<forall>f \<in> set FIELDS.
      get (row_of_item it) f =
        (case result it of
           None \<Rightarrow> Str []
         | Some m \<Rightarrow> if nullish (get (props m) f) then Str [] else get (props m) f)) \<and>
   length FIELDS = 12"
proof (intro conjI impI ballI)
  show "fst (enrich srv pcs st) = Inr (map row_of_item (concat iss))"
    if "fetched srv (chunks_of pcs) (calls st) = Some iss"
    using that enrich_char [of srv pcs st] by simp
  show "length (map row_of_item (concat iss)) = length (concat iss)"
    by simp
  show "chunks_loop srv pcs i rows st
      = chunks_loop srv pcs (i + MAX_BATCH) (rows @ map row_of_item res) (sleep 80 st2)"
    if "i < length pcs \<and>
      attempts srv (take MAX_BATCH (drop i pcs)) 0 (st\<lparr>status := fetching_msg i (length pcs)\<rparr>)
        = (Some res, st2)"
    using that by (subst chunks_loop.simps) (simp add: Let_def)
  show "get (row_of_item it) (js ''postcode'') = Str (toUpperCase p)"
    if "result it = Some m \<and> postcode m = Some p \<and> p \<noteq> []"
    using that by (simp add: postcode_row_of_item or_else_def)
  show "get (row_of_item it) (js ''postcode'') = Str (toUpperCase q)"
    if "result it = None \<and> query it = Some q"
    using that by (simp add: postcode_row_of_item or_else_def)
  show "get (row_of_item it) (js ''postcode'') = Str (toUpperCase q)"
    if "result it = Some m \<and> (postcode m = None \<or> postcode m = Some []) \<and> query it = Some q"
    using that by (auto simp: postcode_row_of_item or_else_def)
  show "toUpperCase s = map (\<lambda>c. if 97 \<le> c \<and> c \<le> 122 then c - 32 else c) s"
    if "list_all (\<lambda>c. c < 128) s"
    using that by (rule toUpperCase_ascii)
  show "get (row_of_item it) f =
        (case result it of
           None \<Rightarrow> Str []
         | Some m \<Rightarrow> if nullish (get (props m) f) then Str [] else get (props m) f)"
    if "f \<in> set FIELDS" for f
    using that by (cases "result it") (auto simp: field_row_of_item field_value_def nullish_def)
  show "length FIELDS = 12" by (rule length_FIELDS)
qed

lemma ex_up:
  "fetched up (chunks_of [js ''SW1A 1AA'', js ''ZZ99 9ZZ'']) (calls page0)
    = Some [[item_match, item_nomatch]]"
  by (simp add: chunks_of_short MAX_BATCH_def page0_simps fails_before_def up_def outcome_def)

lemma ex_upper: "toUpperCase (js ''zz99 9zz'') = js ''ZZ99 9ZZ''"
  "toUpperCase (js ''SW1A 1AA'') = js ''SW1A 1AA''"
  "toUpperCase (js ''c1a 1bb'') = js ''C1A 1BB''"
  by (subst toUpperCase_ascii; simp add: js_def)+

lemma ex_accent_unit: "upper_units 233 = [201]"
  by (simp add: upper_units_def upper_point_def upper_special_def upper_ranges_def in_range_def
      units_of_def)

lemma ex_accent: "toUpperCase (233 # js ''c1a 1bb'') = 201 # js ''C1A 1BB''"
proof -
  have "js ''c1a 1bb'' = 99 # js ''1a 1bb''" by (simp add: js_def)
  then have "toUpperCase (233 # js ''c1a 1bb'') = upper_units 233 @ toUpperCase (js ''c1a 1bb'')"
    by (simp add: is_high_def)
  then show ?thesis by (simp add: ex_accent_unit ex_upper)
qed

lemma ex_fields: "js ''country'' \<in> set FIELDS" "js ''parish'' \<in> set FIELDS"
  "js ''latitude'' \<in> set FIELDS" "js ''longitude'' \<in> set FIELDS"
  by (simp_all add: FIELDS_def)

theorem enrich_rows_witness:
  "fst (enrich up [js ''SW1A 1AA'', js ''ZZ99 9ZZ''] page0)
     = Inr [row_of_item item_match, row_of_item item_nomatch] \<and>
   get (row_of_item item_match) (js ''postcode'') = Str (js ''SW1A 1AA'') \<and>
   get (row_of_item item_nomatch) (js ''postcode'') = Str (js ''ZZ99 9ZZ'') \<and>
   get (row_of_item item_accent) (js ''postcode'') = Str (201 # js ''C1A 1BB'') \<and>
   get (row_of_item item_match) (js ''country'') = Str (js ''England'') \<and>
   get (row_of_item item_match) (js ''parish'') = Str [] \<and>
   get (row_of_item item_match) (js ''latitude'') = Num (js ''51.501009'') \<and>
   get (row_of_item item_nomatch) (js ''country'') = Str []"
proof -
  note m = enrich_rows [where srv = up and pcs = "[js ''SW1A 1AA'', js ''ZZ99 9ZZ'']"
      and st = page0 and iss = "[[item_match, item_nomatch]]" and it = item_match
      and m = "\<lparr>postcode = Some (js ''SW1A 1AA''),
                  props = [(js ''country'', Str (js ''England'')), (js ''parish'', Null),
                           (js ''latitude'', Num (js ''51.501009''))]\<rparr>"
      and p = "js ''SW1A 1AA''"]
  note n = enrich_rows [where it = item_nomatch and q = "js ''zz99 9zz''"]
  note a = enrich_rows [where it = item_accent and q = "233 # js ''c1a 1bb''"]
  from m [THEN conjunct1, THEN mp, OF ex_up]
  have 1: "fst (enrich up [js ''SW1A 1AA'', js ''ZZ99 9ZZ''] page0)
      = Inr [row_of_item item_match, row_of_item item_nomatch]"
    by simp
  from m [THEN conjunct2, THEN conjunct2, THEN conjunct1]
  have 2: "get (row_of_item item_match) (js ''postcode'') = Str (js ''SW1A 1AA'')"
    by (simp add: item_match_def ex_upper js_nonempty)
  from n [THEN conjunct2, THEN conjunct2, THEN conjunct2, THEN conjunct1]
  have 3: "get (row_of_item item_nomatch) (js ''postcode'') = Str (js ''ZZ99 9ZZ'')"
    by (simp add: item_nomatch_def ex_upper)
  from a [THEN conjunct2, THEN conjunct2, THEN conjunct2, THEN conjunct1]
  have 4: "get (row_of_item item_accent) (js ''postcode'') = Str (201 # js ''C1A 1BB'')"
    by (simp add: item_accent_def ex_accent)
  from m have f: "\<forall>f \<in> set FIELDS.
      get (row_of_item item_match) f =
        (case result item_match of
           None \<Rightarrow> Str []
         | Some m \<Rightarrow> if nullish (get (props m) f) then Str [] else get (props m) f)"
    by blast
  from n have g: "\<forall>f \<in> set FIELDS.
      get (row_of_item item_nomatch) f =
        (case result item_nomatch of
           None \<Rightarrow> Str []
         | Some m \<Rightarrow> if nullish (get (props m) f) then Str [] else get (props m) f)"
    by blast
  from f [rule_format, OF ex_fields(1)]
  have 5: "get (row_of_item item_match) (js ''country'') = Str (js ''England'')"
    by (simp add: item_match_def get_Cons nullish_def)
  from f [rule_format, OF ex_fields(2)]
  have 6: "get (row_of_item item_match) (js ''parish'') = Str []"
    by (simp add: item_match_def get_Cons nullish_def js_eq_iff)
  from f [rule_format, OF ex_fields(3)]
  have 7: "get (row_of_item item_match) (js ''latitude'') = Num (js ''51.501009'')"
    by (simp add: item_match_def get_Cons nullish_def js_eq_iff)
  from g [rule_format, OF ex_fields(1)]
  have 8: "get (row_of_item item_nomatch) (js ''country'') = Str []"
    by (simp add: item_nomatch_def)
  from 1 2 3 4 5 6 7 8 show ?thesis by (intro conjI)
qed

text \<open>
  C9, as the program has it. A row that \<open>enrich\<close> produces has the key \<open>postcode\<close> and
  then the 12 fields, latitude and longitude among them, in their fixed order and
  nothing else. Its postcode is a string, and no value in it is \<open>null\<close> or \<open>undefined\<close>:
  a field holds the empty string when there is no match or the match has no value or
  \<open>null\<close> for it, and otherwise the value of the match as it came, so that a number stays
  a number.
\<close>

theorem enriched_row_shape:
  "map fst (row_of_item it) = js ''postcode'' # FIELDS \<and>
   distinct (js ''postcode'' # FIELDS) \<and> length FIELDS = 12 \<and>
   js ''latitude'' \<in> set FIELDS \<and> js ''longitude'' \<in> set FIELDS \<and>
   (\<exists>s. get (row_of_item it) (js ''postcode'') = Str s) \<and>
   (\<forall>f \<in> set FIELDS.
      \<not> nullish (get (row_of_item it) f) \<and>
      get (row_of_item it) f =
        (case result it of
           None \<Rightarrow> Str []
         | Some m \<Rightarrow> if nullish (get (props m) f) then Str [] else get (props m) f)) \<and>
   (fst (enrich srv pcs st) = Inr rows \<longrightarrow>
      (\<forall>r \<in> set rows.
         map fst r = js ''postcode'' # FIELDS \<and>
         (\<exists>s. get r (js ''postcode'') = Str s) \<and>
         (\<forall>f \<in> set FIELDS. \<not> nullish (get r f))))"
proof (intro conjI impI ballI)
  show "map fst (row_of_item it) = js ''postcode'' # FIELDS" by (rule keys_row_of_item)
  show "distinct (js ''postcode'' # FIELDS)" by (rule header_distinct)
  show "length FIELDS = 12" by (rule length_FIELDS)
  show "js ''latitude'' \<in> set FIELDS" "js ''longitude'' \<in> set FIELDS"
    by (rule ex_fields)+
  show "\<exists>s. get (row_of_item it) (js ''postcode'') = Str s"
    by (simp add: postcode_row_of_item)
  show "\<not> nullish (get (row_of_item it) f)" if "f \<in> set FIELDS" for f
    using that by (simp add: field_row_of_item field_value_not_nullish)
  show "get (row_of_item it) f =
        (case result it of
           None \<Rightarrow> Str []
         | Some m \<Rightarrow> if nullish (get (props m) f) then Str [] else get (props m) f)"
    if "f \<in> set FIELDS" for f
    using that by (cases "result it") (auto simp: field_row_of_item field_value_def nullish_def)
next
  fix r
  assume e: "fst (enrich srv pcs st) = Inr rows" and r: "r \<in> set rows"
  from e enrich_char [of srv pcs st] obtain iss where "rows = map row_of_item (concat iss)"
    by (auto split: option.splits)
  with r obtain it' where it': "r = row_of_item it'" by auto
  show "map fst r = js ''postcode'' # FIELDS" unfolding it' by (rule keys_row_of_item)
  show "\<exists>s. get r (js ''postcode'') = Str s" unfolding it' by (simp add: postcode_row_of_item)
  show "\<not> nullish (get r f)" if "f \<in> set FIELDS" for f
    using that unfolding it' by (simp add: field_row_of_item field_value_not_nullish)
qed

theorem enriched_row_shape_witness:
  "map fst (row_of_item item_match) = js ''postcode'' # FIELDS \<and>
   get (row_of_item item_match) (js ''latitude'') = Num (js ''51.501009'') \<and>
   get (row_of_item item_match) (js ''longitude'') = Str [] \<and>
   get (row_of_item item_nomatch) (js ''latitude'') = Str [] \<and>
   map fst (row_of_item item_nomatch) = js ''postcode'' # FIELDS"
proof -
  note m = enriched_row_shape [where it = item_match]
  note n = enriched_row_shape [where it = item_nomatch]
  have f: "\<forall>f \<in> set FIELDS.
      \<not> nullish (get (row_of_item item_match) f) \<and>
      get (row_of_item item_match) f =
        (case result item_match of
           None \<Rightarrow> Str []
         | Some m \<Rightarrow> if nullish (get (props m) f) then Str [] else get (props m) f)"
    using m by blast
  have g: "\<forall>f \<in> set FIELDS.
      \<not> nullish (get (row_of_item item_nomatch) f) \<and>
      get (row_of_item item_nomatch) f =
        (case result item_nomatch of
           None \<Rightarrow> Str []
         | Some m \<Rightarrow> if nullish (get (props m) f) then Str [] else get (props m) f)"
    using n by blast
  from f [rule_format, OF ex_fields(3)]
  have 1: "get (row_of_item item_match) (js ''latitude'') = Num (js ''51.501009'')"
    by (simp add: item_match_def get_Cons nullish_def js_eq_iff)
  from f [rule_format, OF ex_fields(4)]
  have 2: "get (row_of_item item_match) (js ''longitude'') = Str []"
    by (simp add: item_match_def get_Cons get_Nil inherited_FIELDS ex_fields nullish_def
        js_eq_iff)
  from g [rule_format, OF ex_fields(3)]
  have 3: "get (row_of_item item_nomatch) (js ''latitude'') = Str []"
    by (simp add: item_nomatch_def)
  from m n 1 2 3 show ?thesis by blast
qed

lemma ex_latitude:
  "get (row_of_item item_match) (js ''latitude'') = Num (js ''51.501009'')"
  using ex_fields(3)
  by (simp add: field_row_of_item field_value_def item_match_def get_Cons nullish_def js_eq_iff)

theorem enriched_row_shape_counterexample:
  "fst (enrich up [js ''SW1A 1AA'', js ''ZZ99 9ZZ''] page0)
     = Inr [row_of_item item_match, row_of_item item_nomatch] \<and>
   get (row_of_item item_match) (js ''latitude'') = Num (js ''51.501009'') \<and>
   get (row_of_item item_match) (js ''latitude'') \<noteq> Str (js ''51.501009'')"
  using enrich_char [of up "[js ''SW1A 1AA'', js ''ZZ99 9ZZ'']" page0]
  by (simp add: ex_up ex_latitude)

end
